theory Spec2Isabelle
  imports Main "HOL-Library.AList" "HOL-Library.Product_Lexorder"
begin

section \<open>The flow network (class MaximoFLujo)\<close>

text \<open>
  A node is a Python \<open>int\<close>. A Python \<open>dict\<close> keeps its keys in insertion order, so a
  dict is an association list with the operations of \<open>AList\<close>: \<open>AList.update\<close> overwrites
  a key in place or appends a new one, \<open>AList.delete\<close> drops a key, \<open>map_of\<close> looks one up.
  A Python \<open>set\<close> is the list of its elements in the order an iteration yields them; the
  language does not fix that order, and no theorem below depends on it: the solver
  theorems hold for every adjacency list.

  \<open>capacidad\<close>, \<open>flujo\<close> and \<open>ady\<close> are \<open>defaultdict\<close>s: reading a missing key
  yields the empty row and stores it under that key (\<open>tocar\<close>).
\<close>

type_synonym nodo = int
type_synonym fila = "(nodo \<times> int) list"
type_synonym tabla = "(nodo \<times> fila) list"
type_synonym adyacencia = "(nodo \<times> nodo list) list"

text \<open>The field \<open>nodos'\<close> is the attribute \<open>_nodos\<close>.\<close>

record red =
  capacidad :: tabla
  flujo :: tabla
  ady :: adyacencia
  nodos' :: "nodo list"

datatype error = AssertionError | ValueError | KeyError | TypeError | RecursionError

definition red_vacia :: red where
  "red_vacia = \<lparr>capacidad = [], flujo = [], ady = [], nodos' = []\<rparr>"

text \<open>\<open>d[u]\<close> on a defaultdict, as a value (\<open>fila_de\<close>) and as its effect on \<open>d\<close> (\<open>tocar\<close>).\<close>

definition fila_de :: "(nodo \<times> 'a list) list \<Rightarrow> nodo \<Rightarrow> 'a list" where
  "fila_de d u = (case map_of d u of None \<Rightarrow> [] | Some r \<Rightarrow> r)"

definition tocar :: "(nodo \<times> 'a list) list \<Rightarrow> nodo \<Rightarrow> (nodo \<times> 'a list) list" where
  "tocar d u = AList.update u (fila_de d u) d"

text \<open>The entry \<open>d[u][v]\<close> if there is one; \<open>d[u].get(v, 0)\<close>; \<open>d[u][v] = x\<close>;
  \<open>d[u].pop(v, None)\<close>.\<close>

definition entrada :: "tabla \<Rightarrow> nodo \<Rightarrow> nodo \<Rightarrow> int option" where
  "entrada d u v = map_of (fila_de d u) v"

definition obtener :: "tabla \<Rightarrow> nodo \<Rightarrow> nodo \<Rightarrow> int" where
  "obtener d u v = (case entrada d u v of None \<Rightarrow> 0 | Some x \<Rightarrow> x)"

definition poner :: "tabla \<Rightarrow> nodo \<Rightarrow> nodo \<Rightarrow> int \<Rightarrow> tabla" where
  "poner d u v x = AList.update u (AList.update v x (fila_de d u)) d"

definition quitar :: "tabla \<Rightarrow> nodo \<Rightarrow> nodo \<Rightarrow> tabla" where
  "quitar d u v = AList.update u (AList.delete v (fila_de d u)) d"

subsection \<open>Nodes\<close>

definition agregar_nodo :: "red \<Rightarrow> nodo \<Rightarrow> red" where
  "agregar_nodo g u = g\<lparr>nodos' := List.insert u (nodos' g)\<rparr>"

text \<open>The last loop of \<open>eliminar_nodo\<close>: discard \<open>u\<close> from every adjacency set and delete
  the sets that are empty afterwards.\<close>

fun podar :: "nodo \<Rightarrow> adyacencia \<Rightarrow> adyacencia" where
  "podar u [] = []"
| "podar u ((v, s) # resto) =
     (let s' = removeAll u s in
      if s' = [] then podar u resto else (v, s') # podar u resto)"

definition eliminar_nodo :: "red \<Rightarrow> nodo \<Rightarrow> red" where
  "eliminar_nodo g u =
     g\<lparr>nodos' := removeAll u (nodos' g),
       capacidad := map (\<lambda>(v, r). (v, AList.delete u r)) (AList.delete u (capacidad g)),
       flujo := map (\<lambda>(v, r). (v, AList.delete u r)) (AList.delete u (flujo g)),
       ady := podar u (AList.delete u (ady g))\<rparr>"

subsection \<open>Edges\<close>

definition eliminar_arista :: "red \<Rightarrow> nodo \<Rightarrow> nodo \<Rightarrow> red" where
  "eliminar_arista g u v = g\<lparr>capacidad := quitar (capacidad g) u v\<rparr>"

definition establecer_capacidad :: "red \<Rightarrow> nodo \<Rightarrow> nodo \<Rightarrow> int \<Rightarrow> error + red" where
  "establecer_capacidad g u v cap =
     (if \<not> cap \<ge> 0 then Inl AssertionError
      else if cap = 0 then Inr (eliminar_arista g u v)
      else
        let c1 = poner (capacidad g) u v cap;
            f0 = tocar (flujo g) u;
            f1 = (if entrada f0 u v = None then poner f0 u v 0 else f0);
            f2 = tocar f1 v;
            f3 = (if entrada f2 v u = None then poner f2 v u 0 else f2);
            a1 = AList.update u (List.insert v (fila_de (ady g) u)) (ady g);
            a2 = AList.update v (List.insert u (fila_de a1 v)) a1
        in Inr (g\<lparr>capacidad := c1, flujo := f3, ady := a2,
                  nodos' := List.insert v (List.insert u (nodos' g))\<rparr>))"

definition agregar_arista :: "red \<Rightarrow> nodo \<Rightarrow> nodo \<Rightarrow> int \<Rightarrow> error + red" where
  "agregar_arista g u v cap =
     (if \<not> cap \<ge> 0 then Inl AssertionError
      else establecer_capacidad (g\<lparr>capacidad := tocar (capacidad g) u\<rparr>) u v
             (obtener (capacidad g) u v + cap))"

subsection \<open>Queries and the flow reset\<close>

definition nodos :: "red \<Rightarrow> nodo list" where
  "nodos g = sort (nodos' g)"

definition aristas :: "red \<Rightarrow> (nodo \<times> nodo \<times> int) list" where
  "aristas g =
     sort (concat (map (\<lambda>(u, r). map (\<lambda>(v, cap). (u, v, cap)) (filter (\<lambda>(v, cap). cap > 0) r))
                       (capacidad g)))"

definition reiniciar_flujos :: "red \<Rightarrow> red" where
  "reiniciar_flujos g = g\<lparr>flujo := map (\<lambda>(u, r). (u, map (\<lambda>(v, x). (v, 0)) r)) (flujo g)\<rparr>"

subsection \<open>Sequences of calls\<close>

datatype llamada =
    AgregarNodo nodo
  | EliminarNodo nodo
  | EstablecerCapacidad nodo nodo int
  | AgregarArista nodo nodo int
  | EliminarArista nodo nodo

fun llamar :: "red \<Rightarrow> llamada \<Rightarrow> error + red" where
  "llamar g (AgregarNodo u) = Inr (agregar_nodo g u)"
| "llamar g (EliminarNodo u) = Inr (eliminar_nodo g u)"
| "llamar g (EstablecerCapacidad u v cap) = establecer_capacidad g u v cap"
| "llamar g (AgregarArista u v cap) = agregar_arista g u v cap"
| "llamar g (EliminarArista u v) = Inr (eliminar_arista g u v)"

fun llamar_todas :: "red \<Rightarrow> llamada list \<Rightarrow> error + red" where
  "llamar_todas g [] = Inr g"
| "llamar_todas g (c # cs) =
     (case llamar g c of Inl e \<Rightarrow> Inl e | Inr g' \<Rightarrow> llamar_todas g' cs)"

fun argumento_valido :: "llamada \<Rightarrow> bool" where
  "argumento_valido (EstablecerCapacidad u v cap) = (0 \<le> cap)"
| "argumento_valido (AgregarArista u v cap) = (0 \<le> cap)"
| "argumento_valido c = True"


subsection \<open>Well-formed networks\<close>

text \<open>
  What the methods above maintain (lemma \<open>llamar_bien_formada\<close> below): keys are not
  repeated, as in any dict; every stored capacity is positive; and the endpoints of a
  stored edge are in each other's adjacency set.
\<close>

definition bien_formada :: "red \<Rightarrow> bool" where
  "bien_formada g \<longleftrightarrow>
     distinct (map fst (capacidad g)) \<and>
     (\<forall>(u, r) \<in> set (capacidad g). distinct (map fst r)) \<and>
     distinct (map fst (ady g)) \<and>
     (\<forall>u v c. entrada (capacidad g) u v = Some c \<longrightarrow>
        0 < c \<and> v \<in> set (fila_de (ady g) u) \<and> u \<in> set (fila_de (ady g) v))"


section \<open>The solvers\<close>

subsection \<open>Residual capacities\<close>

text \<open>
  The solvers read the tables through \<open>self.capacidad[u].get(v, 0)\<close> and
  \<open>self.flujo[u].get(v, 0)\<close>, and the adjacency through \<open>self.ady[u]\<close>. Such a read of a
  missing row leaves an empty row behind in the Python object. No method tells an empty
  row from a missing one (a membership test only guards the deletion of the row, and an
  iteration over an empty row yields nothing), so the solver model reads with
  \<open>obtener\<close> and \<open>fila_de\<close> and records the writes to \<open>flujo\<close> only.
\<close>

definition residual_adelante :: "red \<Rightarrow> nodo \<Rightarrow> nodo \<Rightarrow> int" where
  "residual_adelante g u v = obtener (capacidad g) u v - obtener (flujo g) u v"

definition residual_atras :: "red \<Rightarrow> nodo \<Rightarrow> nodo \<Rightarrow> int" where
  "residual_atras g u v = obtener (flujo g) v u"

text \<open>\<open>botella\<close> and \<open>flujo_maximo\<close> hold an \<open>int\<close> or \<open>float("inf")\<close>.\<close>

datatype valor = Fin int | Inf

fun minimo :: "valor \<Rightarrow> int \<Rightarrow> valor" where
  "minimo Inf x = Fin x"
| "minimo (Fin b) x = Fin (min b x)"

fun mas :: "valor \<Rightarrow> valor \<Rightarrow> valor" where
  "mas (Fin a) (Fin b) = Fin (a + b)"
| "mas a b = Inf"

text \<open>The predecessor dict \<open>padre\<close>: a node maps to \<open>(u, dir)\<close>, or to \<open>None\<close> (only
  in the breadth-first search, which initialises every node of \<open>_nodos\<close> so).\<close>

type_synonym padres = "nodo \<rightharpoonup> (nodo \<times> int) option"

subsection \<open>Depth-first search\<close>

text \<open>
  \<open>_dfs_aumento\<close> recurses once per node entered. The first argument of the model is
  the number of nested calls the interpreter still allows; with none left the call
  raises \<open>RecursionError\<close>. \<open>dfs_vecinos\<close> is the \<open>for\<close> loop over \<open>self.ady[actual]\<close>.
  The set \<open>visitado\<close> and the dict \<open>padre\<close> are shared by all calls, so each call returns
  them.
\<close>

fun dfs_aumento ::
      "nat \<Rightarrow> red \<Rightarrow> nodo \<Rightarrow> nodo \<Rightarrow> nodo set \<Rightarrow> padres \<Rightarrow> error + bool \<times> nodo set \<times> padres"
  and dfs_vecinos ::
      "nat \<Rightarrow> red \<Rightarrow> nodo \<Rightarrow> nodo \<Rightarrow> nodo list \<Rightarrow> nodo set \<Rightarrow> padres
         \<Rightarrow> error + bool \<times> nodo set \<times> padres"
where
  "dfs_aumento 0 g actual sumidero visitado padre = Inl RecursionError"
| "dfs_aumento (Suc n) g actual sumidero visitado padre =
     (if actual = sumidero then Inr (True, visitado, padre)
      else dfs_vecinos n g actual sumidero (fila_de (ady g) actual)
             (insert actual visitado) padre)"
| "dfs_vecinos n g actual sumidero [] visitado padre = Inr (False, visitado, padre)"
| "dfs_vecinos n g actual sumidero (vecino # resto) visitado padre =
     (case (if vecino \<notin> visitado \<and> residual_adelante g actual vecino > 0
            then dfs_aumento n g vecino sumidero visitado (padre(vecino \<mapsto> Some (actual, 1)))
            else Inr (False, visitado, padre)) of
        Inl e \<Rightarrow> Inl e
      | Inr (True, visitado1, padre1) \<Rightarrow> Inr (True, visitado1, padre1)
      | Inr (False, visitado1, padre1) \<Rightarrow>
          (case (if vecino \<notin> visitado1 \<and> residual_atras g actual vecino > 0
                 then dfs_aumento n g vecino sumidero visitado1
                        (padre1(vecino \<mapsto> Some (actual, - 1)))
                 else Inr (False, visitado1, padre1)) of
             Inl e \<Rightarrow> Inl e
           | Inr (True, visitado2, padre2) \<Rightarrow> Inr (True, visitado2, padre2)
           | Inr (False, visitado2, padre2) \<Rightarrow>
               dfs_vecinos n g actual sumidero resto visitado2 padre2))"

text \<open>Every node the search can enter, apart from the source, stands in an adjacency
  set; one nested call more than there are such nodes is always enough
  (lemma \<open>dfs_aumento_limite\<close> below).\<close>

definition alcanzables :: "red \<Rightarrow> nodo list" where
  "alcanzables g = remdups (concat (map snd (ady g)))"

definition limite :: "red \<Rightarrow> nat" where
  "limite g = Suc (length (alcanzables g))"

definition buscar_dfs :: "red \<Rightarrow> nodo \<Rightarrow> nodo \<Rightarrow> error + padres option" where
  "buscar_dfs g fuente sumidero =
     (case dfs_aumento (limite g) g fuente sumidero {} Map.empty of
        Inl e \<Rightarrow> Inl e
      | Inr (encontro, visitado, padre) \<Rightarrow> Inr (if encontro then Some padre else None))"

subsection \<open>Breadth-first search\<close>

text \<open>\<open>padre.get(v) is None\<close>: the key is missing or maps to \<open>None\<close>.\<close>

definition sin_padre :: "padres \<Rightarrow> nodo \<Rightarrow> bool" where
  "sin_padre padre v = (case padre v of None \<Rightarrow> True | Some None \<Rightarrow> True | Some (Some p) \<Rightarrow> False)"

text \<open>The \<open>for\<close> loop of \<open>_bfs_aumento\<close> over \<open>self.ady[u]\<close>; the first component says
  whether the loop returned \<open>True, padre\<close>.\<close>

fun bfs_vecinos ::
  "red \<Rightarrow> nodo \<Rightarrow> nodo \<Rightarrow> nodo list \<Rightarrow> padres \<Rightarrow> nodo list \<Rightarrow> bool \<times> padres \<times> nodo list"
where
  "bfs_vecinos g u sumidero [] padre q = (False, padre, q)"
| "bfs_vecinos g u sumidero (v # resto) padre q =
     (case (if sin_padre padre v \<and> residual_adelante g u v > 0
            then (if v = sumidero then (True, padre(v \<mapsto> Some (u, 1)), q)
                  else (False, padre(v \<mapsto> Some (u, 1)), q @ [v]))
            else (False, padre, q)) of
        (True, padre1, q1) \<Rightarrow> (True, padre1, q1)
      | (False, padre1, q1) \<Rightarrow>
          (case (if sin_padre padre1 v \<and> residual_atras g u v > 0
                 then (if v = sumidero then (True, padre1(v \<mapsto> Some (u, - 1)), q1)
                       else (False, padre1(v \<mapsto> Some (u, - 1)), q1 @ [v]))
                 else (False, padre1, q1)) of
             (True, padre2, q2) \<Rightarrow> (True, padre2, q2)
           | (False, padre2, q2) \<Rightarrow> bfs_vecinos g u sumidero resto padre2 q2))"

lemma sin_padre_upd:
  "sin_padre (padre(v \<mapsto> Some p)) x = (x \<noteq> v \<and> sin_padre padre x)"
  by (simp add: sin_padre_def)

definition dir_de :: "red \<Rightarrow> nodo \<Rightarrow> nodo \<Rightarrow> int" where
  "dir_de g u v = (if residual_adelante g u v > 0 then 1 else - 1)"

lemma bfs_vecinos_salta:
  "\<not> (sin_padre padre v \<and> (residual_adelante g u v > 0 \<or> residual_atras g u v > 0)) \<Longrightarrow>
   bfs_vecinos g u t (v # resto) padre q = bfs_vecinos g u t resto padre q"
  by auto

lemma bfs_vecinos_llega:
  "sin_padre padre v \<Longrightarrow> residual_adelante g u v > 0 \<or> residual_atras g u v > 0 \<Longrightarrow> v = t \<Longrightarrow>
   bfs_vecinos g u t (v # resto) padre q = (True, padre(v \<mapsto> Some (u, dir_de g u v)), q)"
  by (auto simp: sin_padre_upd dir_de_def)

lemma bfs_vecinos_encola:
  "sin_padre padre v \<Longrightarrow> residual_adelante g u v > 0 \<or> residual_atras g u v > 0 \<Longrightarrow> v \<noteq> t \<Longrightarrow>
   bfs_vecinos g u t (v # resto) padre q =
   bfs_vecinos g u t resto (padre(v \<mapsto> Some (u, dir_de g u v))) (q @ [v])"
  by (auto simp: sin_padre_upd dir_de_def)

declare bfs_vecinos.simps(2) [simp del]

lemma card_sin_padre_upd:
  assumes "finite U" "v \<in> U" "sin_padre padre v"
  shows "Suc (card {x \<in> U. sin_padre (padre(v \<mapsto> Some p)) x}) = card {x \<in> U. sin_padre padre x}"
proof -
  let ?A = "{x \<in> U. sin_padre padre x}"
  have eq: "{x \<in> U. sin_padre (padre(v \<mapsto> Some p)) x} = ?A - {v}"
    by (auto simp: sin_padre_upd)
  have "finite ?A" "v \<in> ?A" using assms by simp_all
  then have "card ?A = Suc (card (?A - {v}))" by (rule card.remove)
  then show ?thesis unfolding eq by simp
qed

lemma bfs_vecinos_medida:
  "bfs_vecinos g u t vs padre q = (r, padre', q') \<Longrightarrow> set vs \<subseteq> U \<Longrightarrow> finite U \<Longrightarrow>
   card {x \<in> U. sin_padre padre' x} + length q' \<le> card {x \<in> U. sin_padre padre x} + length q"
proof (induction vs arbitrary: padre q)
  case Nil
  then show ?case by simp
next
  case (Cons v vs)
  show ?case
  proof (cases "sin_padre padre v \<and> (residual_adelante g u v > 0 \<or> residual_atras g u v > 0)")
    case False
    from Cons.prems(1) have "bfs_vecinos g u t vs padre q = (r, padre', q')"
      by (simp only: bfs_vecinos_salta[OF False])
    from Cons.IH[OF this] Cons.prems show ?thesis by simp
  next
    case True
    define p where "p = padre(v \<mapsto> Some (u, dir_de g u v))"
    have c: "Suc (card {x \<in> U. sin_padre p x}) = card {x \<in> U. sin_padre padre x}"
      unfolding p_def using card_sin_padre_upd[of U v padre] Cons.prems True by simp
    show ?thesis
    proof (cases "v = t")
      case vt: True
      have "bfs_vecinos g u t (v # vs) padre q = (True, p, q)"
        unfolding p_def using True vt by (intro bfs_vecinos_llega) auto
      with Cons.prems(1) have "padre' = p" "q' = q" by simp_all
      with c show ?thesis by simp
    next
      case False
      with True have "bfs_vecinos g u t (v # vs) padre q = bfs_vecinos g u t vs p (q @ [v])"
        unfolding p_def by (intro bfs_vecinos_encola) auto
      with Cons.prems(1) have "bfs_vecinos g u t vs p (q @ [v]) = (r, padre', q')" by simp
      from Cons.IH[OF this] Cons.prems c show ?thesis by simp
    qed
  qed
qed

lemma fila_de_alcanzables: "set (fila_de (ady g) u) \<subseteq> set (alcanzables g)"
proof (cases "map_of (ady g) u")
  case None
  then show ?thesis by (simp add: fila_de_def)
next
  case (Some r)
  then have "(u, r) \<in> set (ady g)" by (rule map_of_SomeD)
  then have "set r \<subseteq> set (alcanzables g)" by (force simp: alcanzables_def)
  with Some show ?thesis by (simp add: fila_de_def)
qed

text \<open>The \<open>while q\<close> loop: \<open>None\<close> is the result \<open>False, None\<close>, and \<open>Some padre\<close> is
  \<open>True, padre\<close>. Every node enters the queue at most once, which bounds the loop.\<close>

function bfs_cola :: "red \<Rightarrow> nodo \<Rightarrow> padres \<Rightarrow> nodo list \<Rightarrow> padres option" where
  "bfs_cola g sumidero padre [] = None"
| "bfs_cola g sumidero padre (u # q) =
     (if u = sumidero then Some padre
      else (case bfs_vecinos g u sumidero (fila_de (ady g) u) padre q of
              (True, padre', q') \<Rightarrow> Some padre'
            | (False, padre', q') \<Rightarrow> bfs_cola g sumidero padre' q'))"
  by pat_completeness auto
termination
  apply (relation "measure (\<lambda>(g, sumidero, padre, q).
          card {x \<in> set (alcanzables g). sin_padre padre x} + length q)")
   apply simp
  subgoal for g sumidero padre u q x y xa ya
    using bfs_vecinos_medida[of g u sumidero "fila_de (ady g) u" padre q x xa ya "set (alcanzables g)"]
          fila_de_alcanzables[of g u]
    by auto
  done

definition bfs_aumento :: "red \<Rightarrow> nodo \<Rightarrow> nodo \<Rightarrow> padres option" where
  "bfs_aumento g fuente sumidero =
     bfs_cola g sumidero
       ((\<lambda>n. if n \<in> set (nodos' g) then Some None else None)(fuente \<mapsto> Some (fuente, 0)))
       [fuente]"

definition buscar_bfs :: "red \<Rightarrow> nodo \<Rightarrow> nodo \<Rightarrow> error + padres option" where
  "buscar_bfs g fuente sumidero = Inr (bfs_aumento g fuente sumidero)"

subsection \<open>The augmenting loop\<close>

text \<open>
  \<open>ford_fulkerson_dfs\<close> and \<open>edmonds_karp_bfs\<close> have the same body but for the search
  they call, so the model has one body with the search as a parameter.

  The first \<open>while v != fuente\<close> loop computes the bottleneck. \<open>padre[v]\<close> raises
  \<open>KeyError\<close> on a missing key, and unpacking \<open>None\<close> raises \<open>TypeError\<close>. Nothing
  bounds the walk for an arbitrary dict, so not returning is the value \<open>None\<close>.
\<close>

partial_function (option) calcular_botella ::
  "red \<Rightarrow> padres \<Rightarrow> nodo \<Rightarrow> nodo \<Rightarrow> valor \<Rightarrow> (error + valor) option"
where
  "calcular_botella g padre fuente v botella =
     (if v \<noteq> fuente then
        (case padre v of
           None \<Rightarrow> Some (Inl KeyError)
         | Some None \<Rightarrow> Some (Inl TypeError)
         | Some (Some (u, dir)) \<Rightarrow>
             calcular_botella g padre fuente u
               (if dir = 1 then minimo botella (residual_adelante g u v)
                else minimo botella (residual_atras g u v)))
      else Some (Inr botella))"

text \<open>One pass through the body of the second \<open>while v != fuente\<close> loop, and the
  loop.\<close>

definition escribir :: "red \<Rightarrow> nodo \<Rightarrow> int \<Rightarrow> nodo \<Rightarrow> int \<Rightarrow> red" where
  "escribir g u dir v botella =
     (if dir = 1 then g\<lparr>flujo := poner (flujo g) u v (obtener (flujo g) u v + botella)\<rparr>
      else g\<lparr>flujo := poner (flujo g) v u (obtener (flujo g) v u - botella)\<rparr>)"

partial_function (option) aplicar_botella ::
  "red \<Rightarrow> padres \<Rightarrow> nodo \<Rightarrow> nodo \<Rightarrow> int \<Rightarrow> ((error + unit) \<times> red) option"
where
  "aplicar_botella g padre fuente v botella =
     (if v \<noteq> fuente then
        (case padre v of
           None \<Rightarrow> Some (Inl KeyError, g)
         | Some None \<Rightarrow> Some (Inl TypeError, g)
         | Some (Some (u, dir)) \<Rightarrow>
             aplicar_botella (escribir g u dir v botella) padre fuente u botella)
      else Some (Inr (), g))"

text \<open>
  One iteration of \<open>while True\<close>. \<open>botella\<close> is still \<open>float("inf")\<close> after the first
  walk only if that walk made no step, that is if \<open>sumidero = fuente\<close> (lemma
  \<open>calcular_botella_Inf\<close> below); the second walk then makes no step either and writes
  nothing.
\<close>

datatype paso = Termina | Falla error | Sigue valor

definition iteracion ::
  "(red \<Rightarrow> nodo \<Rightarrow> nodo \<Rightarrow> error + padres option) \<Rightarrow> red \<Rightarrow> nodo \<Rightarrow> nodo \<Rightarrow> (paso \<times> red) option"
where
  "iteracion buscar g fuente sumidero =
     (case buscar g fuente sumidero of
        Inl e \<Rightarrow> Some (Falla e, g)
      | Inr None \<Rightarrow> Some (Termina, g)
      | Inr (Some padre) \<Rightarrow>
          (case calcular_botella g padre fuente sumidero Inf of
             None \<Rightarrow> None
           | Some (Inl e) \<Rightarrow> Some (Falla e, g)
           | Some (Inr Inf) \<Rightarrow> Some (Sigue Inf, g)
           | Some (Inr (Fin b)) \<Rightarrow>
               (case aplicar_botella g padre fuente sumidero b of
                  None \<Rightarrow> None
                | Some (Inl e, g') \<Rightarrow> Some (Falla e, g')
                | Some (Inr x, g') \<Rightarrow> Some (Sigue (Fin b), g'))))"

partial_function (option) bucle ::
  "(red \<Rightarrow> nodo \<Rightarrow> nodo \<Rightarrow> error + padres option) \<Rightarrow> red \<Rightarrow> nodo \<Rightarrow> nodo \<Rightarrow> valor
     \<Rightarrow> ((error + valor) \<times> red) option"
where
  "bucle buscar g fuente sumidero flujo_maximo =
     (case iteracion buscar g fuente sumidero of
        None \<Rightarrow> None
      | Some (Termina, g') \<Rightarrow> Some (Inr flujo_maximo, g')
      | Some (Falla e, g') \<Rightarrow> Some (Inl e, g')
      | Some (Sigue botella, g') \<Rightarrow>
          bucle buscar g' fuente sumidero (mas flujo_maximo botella))"

declare calcular_botella.simps [code] aplicar_botella.simps [code] bucle.simps [code]

text \<open>The dict \<open>flujo_aristas\<close> built after the loop.\<close>

definition flujo_aristas :: "red \<Rightarrow> ((nodo \<times> nodo) \<times> int) list" where
  "flujo_aristas g =
     foldl (\<lambda>m (u, r).
              foldl (\<lambda>m (v, cap). AList.update (u, v) (max 0 (min cap (obtener (flujo g) u v))) m)
                    m r)
           [] (capacidad g)"

text \<open>The sums of a dict of edge flows over the edges that leave a node and over the
  edges that enter it.\<close>

definition saliente :: "((nodo \<times> nodo) \<times> int) list \<Rightarrow> nodo \<Rightarrow> int" where
  "saliente m w = sum_list (map snd (filter (\<lambda>((u, v), f). u = w) m))"

definition entrante :: "((nodo \<times> nodo) \<times> int) list \<Rightarrow> nodo \<Rightarrow> int" where
  "entrante m w = sum_list (map snd (filter (\<lambda>((u, v), f). v = w) m))"

definition resolver ::
  "(red \<Rightarrow> nodo \<Rightarrow> nodo \<Rightarrow> error + padres option) \<Rightarrow> red \<Rightarrow> nodo \<Rightarrow> nodo
     \<Rightarrow> ((error + valor \<times> ((nodo \<times> nodo) \<times> int) list) \<times> red) option"
where
  "resolver buscar g fuente sumidero =
     (if \<not> (fuente \<in> set (nodos' g) \<and> sumidero \<in> set (nodos' g)) then Some (Inl ValueError, g)
      else
        (case bucle buscar (reiniciar_flujos g) fuente sumidero (Fin 0) of
           None \<Rightarrow> None
         | Some (Inl e, g') \<Rightarrow> Some (Inl e, g')
         | Some (Inr flujo_maximo, g') \<Rightarrow> Some (Inr (flujo_maximo, flujo_aristas g'), g')))"

definition ford_fulkerson_dfs ::
  "red \<Rightarrow> nodo \<Rightarrow> nodo \<Rightarrow> ((error + valor \<times> ((nodo \<times> nodo) \<times> int) list) \<times> red) option"
where
  "ford_fulkerson_dfs = resolver buscar_dfs"

definition edmonds_karp_bfs ::
  "red \<Rightarrow> nodo \<Rightarrow> nodo \<Rightarrow> ((error + valor \<times> ((nodo \<times> nodo) \<times> int) list) \<times> red) option"
where
  "edmonds_karp_bfs = resolver buscar_bfs"

subsection \<open>Augmenting paths and the states of a run\<close>

text \<open>
  A step \<open>(u, dir, v)\<close> is an entry \<open>padre[v] = (u, dir)\<close>. \<open>es_camino padre fuente v ps\<close>
  says that the walk \<open>while v != fuente: u, dir_ = padre[v]; v = u\<close> takes exactly the
  steps \<open>ps\<close>, in that order, and then stops. \<open>residual\<close> is the residual capacity
  the walk reads for a step, \<open>ranura\<close> the entry of \<open>flujo\<close> it writes.
\<close>

type_synonym tramo = "nodo \<times> int \<times> nodo"

fun es_camino :: "padres \<Rightarrow> nodo \<Rightarrow> nodo \<Rightarrow> tramo list \<Rightarrow> bool" where
  "es_camino padre fuente v [] = (v = fuente)"
| "es_camino padre fuente v ((u, dir, w) # ps) =
     (v \<noteq> fuente \<and> w = v \<and> padre v = Some (Some (u, dir)) \<and> es_camino padre fuente u ps)"

fun residual :: "red \<Rightarrow> tramo \<Rightarrow> int" where
  "residual g (u, dir, v) = (if dir = 1 then residual_adelante g u v else residual_atras g u v)"

fun ranura :: "tramo \<Rightarrow> nodo \<times> nodo" where
  "ranura (u, dir, v) = (if dir = 1 then (u, v) else (v, u))"

text \<open>The bottleneck the first walk computes over the steps \<open>ps\<close>, and the network
  the second walk leaves after writing them.\<close>

definition botella_de :: "red \<Rightarrow> valor \<Rightarrow> tramo list \<Rightarrow> valor" where
  "botella_de g botella ps = foldl (\<lambda>b p. minimo b (residual g p)) botella ps"

definition escribir_tramos :: "red \<Rightarrow> int \<Rightarrow> tramo list \<Rightarrow> red" where
  "escribir_tramos g botella ps = foldl (\<lambda>g (u, dir, v). escribir g u dir v botella) g ps"

text \<open>What both searches deliver (lemmas \<open>buscar_dfs_correcta\<close> and
  \<open>buscar_bfs_correcta\<close> below): the walk from the sink along \<open>padre\<close> ends at the
  source, and every step has a positive residual capacity.\<close>

definition busqueda_correcta :: "(red \<Rightarrow> nodo \<Rightarrow> nodo \<Rightarrow> error + padres option) \<Rightarrow> bool" where
  "busqueda_correcta buscar \<longleftrightarrow>
     (\<forall>g fuente sumidero padre. buscar g fuente sumidero = Inr (Some padre) \<longrightarrow>
        (\<exists>ps. es_camino padre fuente sumidero ps \<and> (\<forall>p \<in> set ps. 0 < residual g p)))"

text \<open>Every stored flow is within \<open>[0, capacity]\<close>, a missing entry counting as 0.\<close>

definition flujo_acotado :: "red \<Rightarrow> bool" where
  "flujo_acotado g \<longleftrightarrow>
     (\<forall>u v. 0 \<le> obtener (flujo g) u v \<and> obtener (flujo g) u v \<le> obtener (capacidad g) u v)"

text \<open>
  The states of a solver run after the flow reset. \<open>en_cabeza\<close> holds of the networks
  at the head of \<open>while True\<close>. \<open>recorrido\<close> relates the pairs \<open>(v, network)\<close> the
  second walk goes through, one write after the other. \<open>en_curso\<close> holds of every
  network the run goes through: at the head of the loop, or after any number of writes
  of the second walk.
\<close>

inductive en_cabeza ::
  "(red \<Rightarrow> nodo \<Rightarrow> nodo \<Rightarrow> error + padres option) \<Rightarrow> nodo \<Rightarrow> nodo \<Rightarrow> red \<Rightarrow> red \<Rightarrow> bool"
  for buscar fuente sumidero g
where
  inicio: "en_cabeza buscar fuente sumidero g (reiniciar_flujos g)"
| vuelta: "en_cabeza buscar fuente sumidero g g1 \<Longrightarrow>
           iteracion buscar g1 fuente sumidero = Some (Sigue b, g2) \<Longrightarrow>
           en_cabeza buscar fuente sumidero g g2"

inductive recorrido :: "padres \<Rightarrow> nodo \<Rightarrow> int \<Rightarrow> nodo \<times> red \<Rightarrow> nodo \<times> red \<Rightarrow> bool"
  for padre fuente b x
where
  aqui: "recorrido padre fuente b x x"
| pasada: "recorrido padre fuente b x (v, g1) \<Longrightarrow> v \<noteq> fuente \<Longrightarrow>
           padre v = Some (Some (u, dir)) \<Longrightarrow>
           recorrido padre fuente b x (u, escribir g1 u dir v b)"

inductive en_curso ::
  "(red \<Rightarrow> nodo \<Rightarrow> nodo \<Rightarrow> error + padres option) \<Rightarrow> nodo \<Rightarrow> nodo \<Rightarrow> red \<Rightarrow> red \<Rightarrow> bool"
  for buscar fuente sumidero g
where
  cabeza: "en_cabeza buscar fuente sumidero g g1 \<Longrightarrow> en_curso buscar fuente sumidero g g1"
| escritura: "en_cabeza buscar fuente sumidero g g1 \<Longrightarrow>
              buscar g1 fuente sumidero = Inr (Some padre) \<Longrightarrow>
              calcular_botella g1 padre fuente sumidero Inf = Some (Inr (Fin b)) \<Longrightarrow>
              recorrido padre fuente b (sumidero, g1) (v, g2) \<Longrightarrow>
              en_curso buscar fuente sumidero g g2"

section \<open>Example networks\<close>

text \<open>\<open>red_b\<close> is the network of one edge \<open>0 \<rightarrow> 1\<close> of capacity 5, as
  \<open>establecer_capacidad\<close> builds it. \<open>red_c\<close> has three edges and holds the flows a solver
  run from 0 to 2 leaves behind.\<close>

definition red_b :: red where
  "red_b = \<lparr>capacidad = [(0, [(1, 5)])], flujo = [(0, [(1, 0)]), (1, [(0, 0)])],
            ady = [(0, [1]), (1, [0])], nodos' = [1, 0]\<rparr>"

definition red_c :: red where
  "red_c = \<lparr>capacidad = [(0, [(1, 5), (2, 3)]), (1, [(2, 4)])],
            flujo = [(0, [(1, 4), (2, 3)]), (1, [(0, 0), (2, 4)]), (2, [(0, 0), (1, 0)])],
            ady = [(0, [2, 1]), (1, [2, 0]), (2, [1, 0])], nodos' = [2, 1, 0]\<rparr>"

section \<open>Properties of the graph operations\<close>

subsection \<open>Lookups after table updates\<close>

lemma fila_de_update: "fila_de (AList.update u r d) a = (if a = u then r else fila_de d a)"
  by (simp add: fila_de_def update_conv')

lemma entrada_quitar:
  "entrada (quitar d u v) a b = (if a = u \<and> b = v then None else entrada d a b)"
  by (simp add: entrada_def quitar_def fila_de_update delete_conv')

lemma entrada_poner:
  "entrada (poner d u v x) a b = (if a = u \<and> b = v then Some x else entrada d a b)"
  by (simp add: entrada_def poner_def fila_de_update update_conv')

lemma obtener_poner:
  "obtener (poner d u v x) a b = (if a = u \<and> b = v then x else obtener d a b)"
  by (simp add: obtener_def entrada_poner)

lemma tocar_update:
  "AList.update u r (tocar d u) = AList.update u r d"
  by (induction d) (auto simp: tocar_def fila_de_def)

lemma fila_de_tocar: "fila_de (tocar d u) a = fila_de d a"
  by (simp add: tocar_def fila_de_update)

lemma quitar_tocar: "quitar (tocar d u) u v = quitar d u v"
  by (simp add: quitar_def fila_de_tocar tocar_update)

text \<open>
  Claim C10. \<open>establecer_capacidad(u, v, 0)\<close>, and \<open>agregar_arista(u, v, 0)\<close> when
  \<open>capacidad\<close> has no entry for \<open>u \<rightarrow> v\<close>, is \<open>eliminar_arista(u, v)\<close>: it leaves
  \<open>_nodos\<close>, \<open>flujo\<close> and \<open>ady\<close> as they are (so it adds neither \<open>u\<close> nor \<open>v\<close> to the
  node set), the entry \<open>u \<rightarrow> v\<close> of \<open>capacidad\<close> is gone and every other entry is
  unchanged. (A missing row of \<open>u\<close> is stored empty, which adds no entry.)
\<close>

theorem establecer_capacidad_cero:
  "establecer_capacidad g u v 0 = Inr (eliminar_arista g u v) \<and>
   (entrada (capacidad g) u v = None \<longrightarrow> agregar_arista g u v 0 = Inr (eliminar_arista g u v)) \<and>
   nodos' (eliminar_arista g u v) = nodos' g \<and>
   flujo (eliminar_arista g u v) = flujo g \<and>
   ady (eliminar_arista g u v) = ady g \<and>
   entrada (capacidad (eliminar_arista g u v)) u v = None \<and>
   (\<forall>a b. (a, b) \<noteq> (u, v) \<longrightarrow>
      entrada (capacidad (eliminar_arista g u v)) a b = entrada (capacidad g) a b)"
  by (auto simp: establecer_capacidad_def agregar_arista_def eliminar_arista_def obtener_def
      entrada_quitar quitar_tocar)

theorem establecer_capacidad_cero_witness:
  "entrada (capacidad red_vacia) 1 2 = None \<and>
   agregar_arista red_vacia 1 2 0 = Inr (eliminar_arista red_vacia 1 2) \<and>
   establecer_capacidad red_vacia 1 2 0 = Inr (eliminar_arista red_vacia 1 2) \<and>
   nodos' (eliminar_arista red_vacia 1 2) = [] \<and>
   entrada (capacidad (eliminar_arista red_vacia 1 2)) 3 4 = None"
  using establecer_capacidad_cero [of red_vacia 1 2]
  by (simp add: red_vacia_def entrada_def fila_de_def)


lemma red_b_construida: "establecer_capacidad red_vacia 0 1 5 = Inr red_b"
  by (simp add: establecer_capacidad_def red_vacia_def red_b_def poner_def tocar_def fila_de_def
      entrada_def Let_def)

subsection \<open>Removing a node\<close>

lemma podar_set:
  "(a, s) \<in> set (podar u d) \<Longrightarrow> u \<notin> set s \<and> s \<noteq> [] \<and> (\<exists>s0. (a, s0) \<in> set d)"
  by (induction u d rule: podar.induct) (auto simp: Let_def split: if_splits)

lemma set_delete_fst: "(a, r) \<in> set (AList.delete u d) \<Longrightarrow> a \<noteq> u \<and> (a, r) \<in> set d"
  by (auto simp: AList.delete_eq)

lemma aristas_set:
  "set (aristas g) = {(u, v, c). \<exists>r. (u, r) \<in> set (capacidad g) \<and> (v, c) \<in> set r \<and> 0 < c}"
  by (auto simp: aristas_def)

text \<open>
  Claim C8. After \<open>eliminar_nodo(u)\<close>: \<open>u\<close> is not in \<open>nodos()\<close>; no edge of
  \<open>aristas()\<close> has \<open>u\<close> as an endpoint; no row and no entry of \<open>flujo\<close> has the key
  \<open>u\<close>; \<open>ady\<close> has no set for \<open>u\<close>, no set that contains \<open>u\<close>, and no empty set.
\<close>

theorem eliminar_nodo_quita:
  "u \<notin> set (nodos (eliminar_nodo g u)) \<and>
   (\<forall>(a, b, c) \<in> set (aristas (eliminar_nodo g u)). a \<noteq> u \<and> b \<noteq> u) \<and>
   (\<forall>(a, r) \<in> set (flujo (eliminar_nodo g u)). a \<noteq> u \<and> (\<forall>(b, x) \<in> set r. b \<noteq> u)) \<and>
   (\<forall>a b. a = u \<or> b = u \<longrightarrow> entrada (flujo (eliminar_nodo g u)) a b = None) \<and>
   (\<forall>(a, s) \<in> set (ady (eliminar_nodo g u)). a \<noteq> u \<and> u \<notin> set s \<and> s \<noteq> [])"
proof -
  have 1: "u \<notin> set (nodos (eliminar_nodo g u))"
    by (simp add: nodos_def eliminar_nodo_def)
  have 2: "\<forall>(a, b, c) \<in> set (aristas (eliminar_nodo g u)). a \<noteq> u \<and> b \<noteq> u"
    unfolding aristas_set by (auto simp: eliminar_nodo_def AList.delete_eq)
  have 3: "\<forall>(a, r) \<in> set (flujo (eliminar_nodo g u)). a \<noteq> u \<and> (\<forall>(b, x) \<in> set r. b \<noteq> u)"
    by (auto simp: eliminar_nodo_def AList.delete_eq)
  have 4: "entrada (flujo (eliminar_nodo g u)) a b = None" if "a = u \<or> b = u" for a b
  proof (cases "map_of (flujo (eliminar_nodo g u)) a")
    case None
    then show ?thesis by (simp add: entrada_def fila_de_def)
  next
    case (Some r)
    then have "(a, r) \<in> set (flujo (eliminar_nodo g u))" by (rule map_of_SomeD)
    with 3 have "a \<noteq> u" "\<forall>(b, x) \<in> set r. b \<noteq> u" by auto
    with that have "map_of r b = None" by (cases "map_of r b") (auto dest: map_of_SomeD)
    with Some show ?thesis by (simp add: entrada_def fila_de_def)
  qed
  have 5: "\<forall>(a, s) \<in> set (ady (eliminar_nodo g u)). a \<noteq> u \<and> u \<notin> set s \<and> s \<noteq> []"
    by (auto simp: eliminar_nodo_def dest!: podar_set set_delete_fst)
  from 1 2 3 4 5 show ?thesis by blast
qed

theorem eliminar_nodo_quita_witness:
  "eliminar_nodo red_c 1 =
     \<lparr>capacidad = [(0, [(2, 3)])], flujo = [(0, [(2, 3)]), (2, [(0, 0)])],
      ady = [(0, [2]), (2, [0])], nodos' = [2, 0]\<rparr> \<and>
   1 \<notin> set (nodos (eliminar_nodo red_c 1)) \<and>
   aristas (eliminar_nodo red_c 1) = [(0, 2, 3)] \<and>
   entrada (flujo (eliminar_nodo red_c 1)) 1 2 = None"
  using eliminar_nodo_quita [of 1 red_c]
  by (simp add: red_c_def eliminar_nodo_def nodos_def aristas_def entrada_def fila_de_def
      AList.delete_eq)

subsection \<open>The operations keep the network well formed\<close>

lemma map_fst_filas: "map (fst \<circ> (\<lambda>(v, r). (v, f r))) d = map fst d"
  by (induction d) auto

lemma map_of_filas:
  "map_of (map (\<lambda>(v, r). (v, f r)) d) a = map_option f (map_of d a)"
  by (induction d) auto

lemma entrada_sin_nodo:
  "entrada (map (\<lambda>(v, r). (v, AList.delete u r)) (AList.delete u d)) a b =
     (if a = u \<or> b = u then None else entrada d a b)"
  by (auto simp: entrada_def fila_de_def map_of_filas delete_conv' split: option.splits)

lemma map_fst_podar: "set (map fst (podar u d)) \<subseteq> set (map fst d)"
proof (induction d)
  case Nil
  then show ?case by simp
next
  case (Cons p d)
  then show ?case by (cases p) (auto simp: Let_def)
qed

lemma distinct_podar: "distinct (map fst d) \<Longrightarrow> distinct (map fst (podar u d))"
proof (induction d)
  case Nil
  then show ?case by simp
next
  case (Cons p d)
  then show ?case using map_fst_podar [of u d] by (cases p) (auto simp: Let_def)
qed

lemma map_of_podar:
  "distinct (map fst d) \<Longrightarrow>
   map_of (podar u d) a =
     (case map_of d a of None \<Rightarrow> None
      | Some s \<Rightarrow> if removeAll u s = [] then None else Some (removeAll u s))"
proof (induction d)
  case Nil
  then show ?case by simp
next
  case (Cons p d)
  obtain v s where p: "p = (v, s)" by (cases p)
  with Cons.prems have "map_of d v = None" by (simp add: map_of_eq_None_iff)
  with Cons p show ?case by (auto simp: Let_def split: option.splits)
qed

lemma fila_de_podar:
  "distinct (map fst d) \<Longrightarrow> fila_de (podar u (AList.delete u d)) a =
     (if a = u then [] else removeAll u (fila_de d a))"
  by (auto simp: fila_de_def map_of_podar distinct_delete delete_conv' split: option.splits)

lemma filas_distintas:
  "\<forall>(u, r) \<in> set d. distinct (map fst r) \<Longrightarrow> distinct (map fst (fila_de d u))"
  by (auto simp: fila_de_def split: option.splits dest!: map_of_SomeD)

lemma set_update_filas:
  "(a, r) \<in> set (AList.update u r' d) \<Longrightarrow> (a, r) \<in> set d \<or> (a = u \<and> r = r')"
  by (induction d) (auto split: if_splits)

lemma bien_formada_vacia: "bien_formada red_vacia"
  by (simp add: bien_formada_def red_vacia_def entrada_def fila_de_def)

lemma bien_formada_agregar_nodo: "bien_formada g \<Longrightarrow> bien_formada (agregar_nodo g u)"
  by (simp add: bien_formada_def agregar_nodo_def)

lemma bien_formada_eliminar_arista:
  assumes "bien_formada g"
  shows "bien_formada (eliminar_arista g u v)"
proof -
  have "distinct (map fst (quitar (capacidad g) u v))"
    using assms by (simp add: bien_formada_def quitar_def distinct_update)
  moreover have "\<forall>(a, r) \<in> set (quitar (capacidad g) u v). distinct (map fst r)"
  proof -
    have "distinct (map fst (AList.delete v (fila_de (capacidad g) u)))"
      using assms by (intro distinct_delete filas_distintas) (simp add: bien_formada_def)
    then show ?thesis
      using assms by (auto simp: quitar_def bien_formada_def dest!: set_update_filas)
  qed
  ultimately show ?thesis
    using assms by (auto simp: bien_formada_def eliminar_arista_def entrada_quitar split: if_splits)
qed

lemma bien_formada_eliminar_nodo:
  assumes "bien_formada g"
  shows "bien_formada (eliminar_nodo g u)"
proof -
  have d: "distinct (map fst (ady g))" using assms by (simp add: bien_formada_def)
  have 1: "distinct (map fst (capacidad (eliminar_nodo g u)))"
    using assms by (simp add: eliminar_nodo_def bien_formada_def map_fst_filas distinct_delete)
  have 2: "\<forall>(a, r) \<in> set (capacidad (eliminar_nodo g u)). distinct (map fst r)"
    using assms
    by (auto simp: eliminar_nodo_def bien_formada_def intro!: distinct_delete dest!: set_delete_fst)
  have 3: "distinct (map fst (ady (eliminar_nodo g u)))"
    using d by (simp add: eliminar_nodo_def distinct_podar distinct_delete)
  have 4: "0 < c \<and> b \<in> set (fila_de (ady (eliminar_nodo g u)) a)
             \<and> a \<in> set (fila_de (ady (eliminar_nodo g u)) b)"
    if "entrada (capacidad (eliminar_nodo g u)) a b = Some c" for a b c
  proof -
    from that have ne: "a \<noteq> u" "b \<noteq> u" and e: "entrada (capacidad g) a b = Some c"
      by (auto simp: eliminar_nodo_def entrada_sin_nodo split: if_splits)
    from e assms have "0 < c" "b \<in> set (fila_de (ady g) a)" "a \<in> set (fila_de (ady g) b)"
      by (auto simp: bien_formada_def)
    with ne d show ?thesis by (simp add: eliminar_nodo_def fila_de_podar)
  qed
  from 1 2 3 4 show ?thesis unfolding bien_formada_def by blast
qed


lemma entrada_tocar: "entrada (tocar d u) a b = entrada d a b"
  by (simp add: entrada_def fila_de_tocar)

lemma bien_formada_tocar:
  assumes "bien_formada g"
  shows "bien_formada (g\<lparr>capacidad := tocar (capacidad g) u\<rparr>)"
proof -
  have "distinct (map fst (fila_de (capacidad g) u))"
    using assms by (intro filas_distintas) (simp add: bien_formada_def)
  then have "\<forall>(a, r) \<in> set (tocar (capacidad g) u). distinct (map fst r)"
    using assms by (auto simp: tocar_def bien_formada_def dest!: set_update_filas)
  then show ?thesis
    using assms by (simp add: bien_formada_def entrada_tocar) (simp add: tocar_def distinct_update)
qed

lemma obtener_no_negativo: "bien_formada g \<Longrightarrow> 0 \<le> obtener (capacidad g) u v"
  by (auto simp: obtener_def bien_formada_def split: option.splits) force

lemma bien_formada_establecer_capacidad:
  assumes "bien_formada g" and "establecer_capacidad g u v cap = Inr g'"
  shows "bien_formada g'"
proof (cases "cap = 0")
  case True
  with assms show ?thesis
    by (auto simp: establecer_capacidad_def bien_formada_eliminar_arista)
next
  case False
  with assms(2) have pos: "0 < cap"
    by (auto simp: establecer_capacidad_def split: if_splits)
  define a1 where "a1 = AList.update u (List.insert v (fila_de (ady g) u)) (ady g)"
  define a2 where "a2 = AList.update v (List.insert u (fila_de a1 v)) a1"
  from assms(2) pos have c: "capacidad g' = poner (capacidad g) u v cap" and a: "ady g' = a2"
    by (auto simp: establecer_capacidad_def Let_def a1_def a2_def)
  have ady: "set (fila_de a2 x) =
      set (fila_de (ady g) x) \<union> (if x = u then {v} else {}) \<union> (if x = v then {u} else {})" for x
    by (auto simp: a1_def a2_def fila_de_update)
  have 1: "distinct (map fst (capacidad g'))"
    using assms(1) by (simp add: c poner_def bien_formada_def distinct_update)
  have "distinct (map fst (fila_de (capacidad g) u))"
    using assms(1) by (intro filas_distintas) (simp add: bien_formada_def)
  then have "distinct (map fst (AList.update v cap (fila_de (capacidad g) u)))"
    by (rule distinct_update)
  then have 2: "\<forall>(a, r) \<in> set (capacidad g'). distinct (map fst r)"
    using assms(1) by (auto simp: c poner_def bien_formada_def dest!: set_update_filas)
  have 3: "distinct (map fst (ady g'))"
    using assms(1) by (simp add: a a1_def a2_def bien_formada_def distinct_update)
  have 4: "0 < k \<and> y \<in> set (fila_de (ady g') x) \<and> x \<in> set (fila_de (ady g') y)"
    if "entrada (capacidad g') x y = Some k" for x y k
  proof (cases "x = u \<and> y = v")
    case True
    with that pos show ?thesis by (auto simp: c a ady entrada_poner)
  next
    case False
    with that have "entrada (capacidad g) x y = Some k" by (auto simp: c entrada_poner)
    with assms(1) have "0 < k" "y \<in> set (fila_de (ady g) x)" "x \<in> set (fila_de (ady g) y)"
      by (auto simp: bien_formada_def)
    then show ?thesis by (simp add: a ady)
  qed
  from 1 2 3 4 show ?thesis unfolding bien_formada_def by blast
qed

lemma bien_formada_agregar_arista:
  assumes "bien_formada g" and "agregar_arista g u v cap = Inr g'"
  shows "bien_formada g'"
  using assms bien_formada_establecer_capacidad [OF bien_formada_tocar [OF assms(1)]]
  by (auto simp: agregar_arista_def split: if_splits)

lemma llamar_bien_formada: "bien_formada g \<Longrightarrow> llamar g c = Inr g' \<Longrightarrow> bien_formada g'"
  by (cases c)
     (auto simp: bien_formada_agregar_nodo bien_formada_eliminar_nodo bien_formada_eliminar_arista
           intro: bien_formada_establecer_capacidad bien_formada_agregar_arista)

lemma llamar_valida:
  assumes "bien_formada g" and "argumento_valido c"
  shows "\<exists>g'. llamar g c = Inr g'"
proof (cases c)
  case (EstablecerCapacidad u v cap)
  with assms show ?thesis by (auto simp: establecer_capacidad_def Let_def)
next
  case (AgregarArista u v cap)
  with assms obtener_no_negativo [OF assms(1), of u v] show ?thesis
    by (auto simp: agregar_arista_def establecer_capacidad_def Let_def)
qed simp_all

lemma llamar_todas_validas:
  "bien_formada g \<Longrightarrow> \<forall>c \<in> set cs. argumento_valido c \<Longrightarrow>
   \<exists>g'. llamar_todas g cs = Inr g' \<and> bien_formada g'"
proof (induction cs arbitrary: g)
  case Nil
  then show ?case by simp
next
  case (Cons c cs)
  then obtain g1 where g1: "llamar g c = Inr g1" using llamar_valida [of g c] by auto
  with Cons.prems have "bien_formada g1" by (auto intro: llamar_bien_formada)
  with Cons g1 show ?case by simp
qed

subsection \<open>The edge list\<close>

lemma almacenada_entrada:
  assumes "distinct (map fst d)" "\<forall>(u, r) \<in> set d. distinct (map fst r)"
  shows "(\<exists>r. (u, r) \<in> set d \<and> (v, c) \<in> set r) \<longleftrightarrow> entrada d u v = Some c"
proof
  assume "\<exists>r. (u, r) \<in> set d \<and> (v, c) \<in> set r"
  then obtain r where r: "(u, r) \<in> set d" "(v, c) \<in> set r" by blast
  with assms have "map_of d u = Some r" "distinct (map fst r)" by auto
  with r show "entrada d u v = Some c" by (simp add: entrada_def fila_de_def)
next
  assume "entrada d u v = Some c"
  then show "\<exists>r. (u, r) \<in> set d \<and> (v, c) \<in> set r"
    by (auto simp: entrada_def fila_de_def split: option.splits dest!: map_of_SomeD)
qed

lemma distinct_pares:
  assumes "distinct (map fst d)" "\<forall>(u, r) \<in> set d. distinct (map fst r)"
  shows "distinct (concat (map (\<lambda>(u, r). map (\<lambda>(v, c). (u, v)) (filter P r)) d))"
  using assms
proof (induction d)
  case Nil
  then show ?case by simp
next
  case (Cons p d)
  obtain u r where p: "p = (u, r)" by (cases p)
  from Cons.prems p have "distinct (map fst (filter P r))"
    by (simp add: distinct_map_filter)
  then have "distinct (map (\<lambda>(v, c). (u, v)) (filter P r))"
    by (simp add: distinct_map inj_on_def case_prod_unfold)
  moreover have "set (map (\<lambda>(v, c). (u, v)) (filter P r)) \<inter>
        set (concat (map (\<lambda>(u, r). map (\<lambda>(v, c). (u, v)) (filter P r)) d)) = {}"
    using Cons.prems p by (auto simp: image_iff)
  ultimately show ?case using Cons p by simp
qed

lemma aristas_ordenadas:
  assumes "bien_formada g"
  shows "sorted_wrt (<) (map (\<lambda>(u, v, c). (u, v)) (aristas g))"
proof -
  define xs where "xs = concat (map (\<lambda>(u, r). map (\<lambda>(v, cap). (u, v, cap))
      (filter (\<lambda>(v, cap). cap > 0) r)) (capacidad g))"
  have m: "map (\<lambda>(u, v, c). (u, v)) xs =
      concat (map (\<lambda>(u, r). map (\<lambda>(v, c). (u, v)) (filter (\<lambda>(v, cap). cap > 0) r)) (capacidad g))"
    unfolding xs_def by (induction "capacidad g") (auto simp: map_concat case_prod_unfold comp_def)
  have "distinct (map (\<lambda>(u, v, c). (u, v)) xs)"
    unfolding m using assms by (intro distinct_pares) (auto simp: bien_formada_def)
  then have "distinct (map (\<lambda>(u, v, c). (u, v)) (sort xs))"
    by (simp add: distinct_map)
  moreover have "sorted (map (\<lambda>(u, v, c). (u, v)) (sort xs))"
  proof -
    have "sorted_wrt (\<le>) (sort xs)" by simp
    then have "sorted_wrt (\<lambda>x y. (case x of (u, v, c) \<Rightarrow> (u, v)) \<le> (case y of (u, v, c) \<Rightarrow> (u, v)))
        (sort xs)"
      by (rule sorted_wrt_mono_rel [rotated]) (auto simp: less_eq_prod_def less_prod_def)
    then show ?thesis by (simp add: sorted_wrt_map)
  qed
  ultimately show ?thesis by (simp add: strict_sorted_iff aristas_def xs_def)
qed


text \<open>
  Claim C7. Every sequence of \<open>agregar_nodo\<close>, \<open>eliminar_nodo\<close>,
  \<open>establecer_capacidad\<close>, \<open>agregar_arista\<close> and \<open>eliminar_arista\<close> calls with
  non-negative capacity arguments, from the empty network, runs without an error; in the
  network it leaves every stored capacity is positive, and \<open>aristas()\<close> lists exactly the
  stored edges, each with a positive capacity, in strictly ascending order of \<open>(u, v)\<close>.
\<close>

theorem llamadas_capacidad_positiva:
  assumes "\<forall>c \<in> set cs. argumento_valido c"
  shows "\<exists>g. llamar_todas red_vacia cs = Inr g \<and>
             (\<forall>(u, r) \<in> set (capacidad g). \<forall>(v, c) \<in> set r. 0 < c) \<and>
             set (aristas g) =
               {(u, v, c). \<exists>r. (u, r) \<in> set (capacidad g) \<and> (v, c) \<in> set r} \<and>
             (\<forall>(u, v, c) \<in> set (aristas g). 0 < c) \<and>
             sorted_wrt (<) (map (\<lambda>(u, v, c). (u, v)) (aristas g))"
proof -
  from llamar_todas_validas [OF bien_formada_vacia assms]
  obtain g where g: "llamar_todas red_vacia cs = Inr g" and bf: "bien_formada g" by blast
  have d: "distinct (map fst (capacidad g))" "\<forall>(u, r) \<in> set (capacidad g). distinct (map fst r)"
    using bf by (auto simp: bien_formada_def)
  have pos: "0 < c" if "(u, r) \<in> set (capacidad g)" "(v, c) \<in> set r" for u r v c
  proof -
    from that have "entrada (capacidad g) u v = Some c"
      using almacenada_entrada [OF d, of u v c] by blast
    with bf show ?thesis by (auto simp: bien_formada_def)
  qed
  have 1: "\<forall>(u, r) \<in> set (capacidad g). \<forall>(v, c) \<in> set r. 0 < c"
    using pos by blast
  have 2: "set (aristas g) = {(u, v, c). \<exists>r. (u, r) \<in> set (capacidad g) \<and> (v, c) \<in> set r}"
    unfolding aristas_set using pos by blast
  have 3: "\<forall>(u, v, c) \<in> set (aristas g). 0 < c"
    unfolding aristas_set by blast
  from g 1 2 3 aristas_ordenadas [OF bf] show ?thesis by blast
qed

theorem llamadas_capacidad_positiva_witness:
  "list_all argumento_valido
      [EstablecerCapacidad 2 1 4, AgregarArista 0 1 5, AgregarArista 2 1 0,
       EstablecerCapacidad 0 1 0, AgregarArista 0 1 3, AgregarArista 0 1 2,
       AgregarNodo 7, EstablecerCapacidad 2 0 6, EliminarNodo 7] \<and>
   (\<exists>g. llamar_todas red_vacia
          [EstablecerCapacidad 2 1 4, AgregarArista 0 1 5, AgregarArista 2 1 0,
           EstablecerCapacidad 0 1 0, AgregarArista 0 1 3, AgregarArista 0 1 2,
           AgregarNodo 7, EstablecerCapacidad 2 0 6, EliminarNodo 7] = Inr g \<and>
        capacidad g = [(2, [(1, 4), (0, 6)]), (0, [(1, 5)])] \<and>
        aristas g = [(0, 1, 5), (2, 0, 6), (2, 1, 4)] \<and>
        sorted_wrt (<) (map (\<lambda>(u, v, c). (u, v)) (aristas g)))"
proof -
  let ?cs = "[EstablecerCapacidad 2 1 4, AgregarArista 0 1 5, AgregarArista 2 1 0,
              EstablecerCapacidad 0 1 0, AgregarArista 0 1 3, AgregarArista 0 1 2,
              AgregarNodo 7, EstablecerCapacidad 2 0 6, EliminarNodo 7]"
  let ?g = "\<lparr>capacidad = [(2, [(1, 4), (0, 6)]), (0, [(1, 5)])],
           flujo = [(2, [(1, 0), (0, 0)]), (1, [(2, 0), (0, 0)]), (0, [(1, 0), (2, 0)])],
           ady = [(2, [0, 1]), (1, [0, 2]), (0, [2, 1])], nodos' = [0, 1, 2]\<rparr>"
  have h: "\<forall>c \<in> set ?cs. argumento_valido c" by simp
  have e: "llamar_todas red_vacia ?cs = Inr ?g" by code_simp
  have a: "aristas ?g = [(0, 1, 5), (2, 0, 6), (2, 1, 4)]" by code_simp
  from llamadas_capacidad_positiva [OF h]
  obtain g where g: "llamar_todas red_vacia ?cs = Inr g"
    and s: "sorted_wrt (<) (map (\<lambda>(u, v, c). (u, v)) (aristas g))" by blast
  from g e have "g = ?g" by simp
  with s have "sorted_wrt (<) (map (\<lambda>(u, v, c). (u, v)) (aristas ?g))" by simp
  moreover have "list_all argumento_valido ?cs" by simp
  ultimately show ?thesis using e a by simp
qed

section \<open>Properties of the solvers\<close>

subsection \<open>Source or sink outside the node set\<close>

text \<open>
  Claim C4. When the source or the sink is not in \<open>_nodos\<close>, both solvers raise
  \<open>ValueError\<close> at once: the network, with whatever flows an earlier run left in it,
  is the one the call received.
\<close>

theorem solver_nodo_ausente:
  "\<not> (fuente \<in> set (nodos' g) \<and> sumidero \<in> set (nodos' g)) \<Longrightarrow>
   ford_fulkerson_dfs g fuente sumidero = Some (Inl ValueError, g) \<and>
   edmonds_karp_bfs g fuente sumidero = Some (Inl ValueError, g)"
  by (simp add: ford_fulkerson_dfs_def edmonds_karp_bfs_def resolver_def)

theorem solver_nodo_ausente_witness:
  "\<not> (7 \<in> set (nodos' red_c) \<and> 2 \<in> set (nodos' red_c)) \<and>
   ford_fulkerson_dfs red_c 7 2 = Some (Inl ValueError, red_c) \<and>
   edmonds_karp_bfs red_c 7 2 = Some (Inl ValueError, red_c) \<and>
   obtener (flujo red_c) 0 1 = 4"
proof -
  have h: "\<not> (7 \<in> set (nodos' red_c) \<and> 2 \<in> set (nodos' red_c))"
    by (simp add: red_c_def)
  show ?thesis
    using h solver_nodo_ausente [OF h]
    by (simp add: red_c_def obtener_def entrada_def fila_de_def)
qed


subsection \<open>Source equal to sink\<close>

lemma calcular_botella_fuente: "calcular_botella g padre fuente fuente botella = Some (Inr botella)"
  by (subst calcular_botella.simps) simp

lemma buscar_dfs_fuente: "buscar_dfs g fuente fuente = Inr (Some Map.empty)"
  by (simp add: buscar_dfs_def limite_def)

lemma buscar_bfs_fuente: "\<exists>padre. buscar_bfs g fuente fuente = Inr (Some padre)"
  by (simp add: buscar_bfs_def bfs_aumento_def)

lemma iteracion_fuente:
  "buscar g fuente fuente = Inr (Some padre) \<Longrightarrow>
   iteracion buscar g fuente fuente = Some (Sigue Inf, g)"
  by (simp add: iteracion_def calcular_botella_fuente)

lemmas bucle_induct = bucle.raw_induct [rotated 1, consumes 1, case_names paso]

lemma bucle_diverge:
  assumes "\<And>g. iteracion buscar g fuente sumidero = Some (Sigue (b g), g)"
  shows "bucle buscar g fuente sumidero acumulado = None"
proof (cases "bucle buscar g fuente sumidero acumulado")
  case None
  then show ?thesis .
next
  case (Some y)
  then have "\<not> (\<forall>g. \<exists>b. iteracion buscar g fuente sumidero = Some (Sigue b, g))"
  proof (induction rule: bucle_induct)
    case (paso bucle' buscar g fuente sumidero acumulado y)
    show ?case
    proof
      assume a: "\<forall>g. \<exists>b. iteracion buscar g fuente sumidero = Some (Sigue b, g)"
      then obtain b where "iteracion buscar g fuente sumidero = Some (Sigue b, g)" by blast
      with paso(2) have "bucle' buscar g fuente sumidero (mas acumulado b) = Some y" by simp
      from paso(1) [OF this] a show False by blast
    qed
  qed
  with assms show ?thesis by blast
qed

lemma bucle_fuente_dfs: "bucle buscar_dfs g fuente fuente acumulado = None"
  by (rule bucle_diverge [where b = "\<lambda>g. Inf"]) (simp add: iteracion_fuente buscar_dfs_fuente)

lemma bucle_fuente_bfs: "bucle buscar_bfs g fuente fuente acumulado = None"
proof (rule bucle_diverge [where b = "\<lambda>g. Inf"])
  fix g
  obtain padre where "buscar_bfs g fuente fuente = Inr (Some padre)"
    using buscar_bfs_fuente by blast
  then show "iteracion buscar_bfs g fuente fuente = Some (Sigue Inf, g)"
    by (rule iteracion_fuente)
qed

text \<open>
  Claim C1 (fails on the code). With the source equal to the sink and in \<open>_nodos\<close>,
  neither solver returns: each search reports a path at once, the walks make no step,
  \<open>botella\<close> stays \<open>float("inf")\<close>, and the \<open>while True\<close> loop starts again from the
  same state. The claim says the call returns a total flow of 0.
\<close>

theorem solver_fuente_igual_sumidero:
  "fuente \<in> set (nodos' g) \<Longrightarrow>
   ford_fulkerson_dfs g fuente fuente = None \<and> edmonds_karp_bfs g fuente fuente = None"
  by (simp add: ford_fulkerson_dfs_def edmonds_karp_bfs_def resolver_def
      bucle_fuente_dfs bucle_fuente_bfs)

theorem solver_fuente_igual_sumidero_witness:
  "0 \<in> set (nodos' red_b) \<and>
   ford_fulkerson_dfs red_b 0 0 = None \<and> edmonds_karp_bfs red_b 0 0 = None"
proof -
  have h: "0 \<in> set (nodos' red_b)" by (simp add: red_b_def)
  from h solver_fuente_igual_sumidero [OF h] show ?thesis by simp
qed

text \<open>
  Claim C2 (fails on the code). With the source equal to the sink, an iteration of either
  solver finds a path, computes the bottleneck \<open>float("inf")\<close>, which is no finite
  integer, and leaves the network as it was; once the accumulated total is infinite it
  no longer increases, and the loop never ends.
\<close>

theorem iteracion_fuente_igual_sumidero:
  "iteracion buscar_dfs g fuente fuente = Some (Sigue Inf, g) \<and>
   iteracion buscar_bfs g fuente fuente = Some (Sigue Inf, g) \<and>
   mas (mas acumulado Inf) Inf = mas acumulado Inf \<and>
   bucle buscar_dfs g fuente fuente acumulado = None \<and>
   bucle buscar_bfs g fuente fuente acumulado = None"
proof -
  obtain padre where "buscar_bfs g fuente fuente = Inr (Some padre)"
    using buscar_bfs_fuente by blast
  then have "iteracion buscar_bfs g fuente fuente = Some (Sigue Inf, g)"
    by (rule iteracion_fuente)
  moreover have "mas (mas acumulado Inf) Inf = mas acumulado Inf" by (cases acumulado) simp_all
  ultimately show ?thesis
    by (simp add: iteracion_fuente buscar_dfs_fuente bucle_fuente_dfs bucle_fuente_bfs)
qed

text \<open>
  Claim C3 (fails on the code). With the source equal to the sink there is no total that
  both solvers return: the depth-first solver returns none.
\<close>

theorem solver_sin_valor_comun:
  "\<not> (\<exists>acumulado m1 g1 m2 g2.
        ford_fulkerson_dfs g fuente fuente = Some (Inr (acumulado, m1), g1) \<and>
        edmonds_karp_bfs g fuente fuente = Some (Inr (acumulado, m2), g2))"
  by (simp add: ford_fulkerson_dfs_def resolver_def bucle_fuente_dfs)

subsection \<open>Walks along the predecessor dict\<close>

lemma es_camino_unico:
  "es_camino padre s v ps \<Longrightarrow> es_camino padre s v ps' \<Longrightarrow> ps = ps'"
proof (induction ps arbitrary: v ps')
  case Nil
  then show ?case by (cases ps') auto
next
  case (Cons p ps)
  obtain u d w where p: "p = (u, d, w)" by (cases p)
  with Cons.prems(1) have v: "v \<noteq> s" by simp
  with Cons.prems(2) obtain p' qs where ps': "ps' = p' # qs" by (cases ps') auto
  obtain u' d' w' where p': "p' = (u', d', w')" by (cases p')
  from Cons.prems p ps' p' have "u' = u" "d' = d" "w' = w" "es_camino padre s u ps"
    "es_camino padre s u qs" by auto
  with Cons.IH [of u qs] p p' ps' show ?case by simp
qed

lemma es_camino_sufijo:
  "es_camino padre s v (xs @ (u, d, w) # ys) \<Longrightarrow> es_camino padre s w ((u, d, w) # ys)"
proof (induction xs arbitrary: v)
  case Nil
  then show ?case by simp
next
  case (Cons x xs)
  obtain u' d' w' where "x = (u', d', w')" by (cases x)
  with Cons show ?case by auto
qed

lemma es_camino_destinos:
  assumes "es_camino padre s v ps"
  shows "distinct (map (\<lambda>(u, d, w). w) ps)"
  using assms
proof (induction ps arbitrary: v)
  case Nil
  then show ?case by simp
next
  case (Cons p ps)
  obtain u d w where p: "p = (u, d, w)" by (cases p)
  with Cons.prems have w: "w = v" and u: "es_camino padre s u ps" by auto
  have "v \<notin> set (map (\<lambda>(u, d, w). w) ps)"
  proof
    assume "v \<in> set (map (\<lambda>(u, d, w). w) ps)"
    then obtain u' d' where "(u', d', v) \<in> set ps" by auto
    then obtain xs ys where ps: "ps = xs @ (u', d', v) # ys" by (auto simp: in_set_conv_decomp)
    with u have "es_camino padre s v ((u', d', v) # ys)" by (auto dest: es_camino_sufijo)
    with Cons.prems have "p # ps = (u', d', v) # ys" by (rule es_camino_unico)
    with ps show False by simp
  qed
  with Cons.IH [OF u] p w show ?case by simp
qed

lemma es_camino_no_fuente: "es_camino padre s v ps \<Longrightarrow> (u, d, w) \<in> set ps \<Longrightarrow> w \<noteq> s"
proof (induction ps arbitrary: v)
  case Nil
  then show ?case by simp
next
  case (Cons p ps)
  obtain u' d' w' where "p = (u', d', w')" by (cases p)
  with Cons show ?case by auto
qed

lemma es_camino_origen:
  "es_camino padre s v ps \<Longrightarrow> (u, d, w) \<in> set ps \<Longrightarrow>
   u = s \<or> u \<in> set (map (\<lambda>(u, d, w). w) ps)"
proof (induction ps arbitrary: v)
  case Nil
  then show ?case by simp
next
  case (Cons p ps)
  obtain u' d' w' where p: "p = (u', d', w')" by (cases p)
  show ?case
  proof (cases "(u, d, w) = p")
    case True
    with p Cons.prems have "es_camino padre s u ps" by auto
    then show ?thesis by (cases ps) auto
  next
    case False
    with Cons p show ?thesis by auto
  qed
qed

lemma es_camino_ranuras:
  assumes "es_camino padre s v ps"
  shows "distinct (map ranura ps)"
  using assms
proof (induction ps arbitrary: v)
  case Nil
  then show ?case by simp
next
  case (Cons p ps)
  obtain u d w where p: "p = (u, d, w)" by (cases p)
  with Cons.prems have w: "w = v" and vs: "v \<noteq> s" and u: "es_camino padre s u ps" by auto
  from es_camino_destinos [OF Cons.prems] p w
  have nv: "v \<notin> set (map (\<lambda>(u, d, w). w) ps)" by simp
  have "ranura p \<notin> set (map ranura ps)"
  proof
    assume "ranura p \<in> set (map ranura ps)"
    then obtain u' d' w' where q: "(u', d', w') \<in> set ps" "ranura (u', d', w') = ranura p"
      by auto
    with nv have "w' \<noteq> v" by force
    with q p w have "u' = v" by (auto split: if_splits)
    with es_camino_origen [OF u q(1)] vs nv show False by simp
  qed
  with Cons.IH [OF u] show ?case by simp
qed
lemma botella_de_Nil [simp]: "botella_de g b [] = b"
  by (simp add: botella_de_def)

lemma botella_de_Cons [simp]: "botella_de g b (p # ps) = botella_de g (minimo b (residual g p)) ps"
  by (simp add: botella_de_def)

lemma escribir_tramos_Nil [simp]: "escribir_tramos g b [] = g"
  by (simp add: escribir_tramos_def)

lemma escribir_tramos_Cons [simp]:
  "escribir_tramos g b ((u, d, v) # ps) = escribir_tramos (escribir g u d v b) b ps"
  by (simp add: escribir_tramos_def)

lemma escribir_tramos_snoc:
  "escribir_tramos g b (ps @ [(u, d, v)]) = escribir (escribir_tramos g b ps) u d v b"
  by (simp add: escribir_tramos_def)

lemma calcular_botella_camino:
  "es_camino padre s v ps \<Longrightarrow>
   calcular_botella g padre s v b = Some (Inr (botella_de g b ps))"
proof (induction ps arbitrary: v b)
  case Nil
  then show ?case by (subst calcular_botella.simps) simp
next
  case (Cons p ps)
  obtain u d w where p: "p = (u, d, w)" by (cases p)
  with Cons.prems have h: "v \<noteq> s" "w = v" "padre v = Some (Some (u, d))" "es_camino padre s u ps"
    by auto
  from Cons.IH [OF h(4)] h p show ?case
    by (subst calcular_botella.simps) simp
qed

lemma aplicar_botella_camino:
  "es_camino padre s v ps \<Longrightarrow>
   aplicar_botella g padre s v b = Some (Inr (), escribir_tramos g b ps)"
proof (induction ps arbitrary: v g)
  case Nil
  then show ?case by (subst aplicar_botella.simps) simp
next
  case (Cons p ps)
  obtain u d w where p: "p = (u, d, w)" by (cases p)
  with Cons.prems have h: "v \<noteq> s" "w = v" "padre v = Some (Some (u, d))" "es_camino padre s u ps"
    by auto
  from Cons.IH [OF h(4)] h p show ?case
    by (subst aplicar_botella.simps) simp
qed

lemma botella_de_Fin:
  "\<exists>k. botella_de g (Fin b) ps = Fin k \<and> k \<le> b \<and> (\<forall>p \<in> set ps. k \<le> residual g p) \<and>
       (0 < b \<and> (\<forall>p \<in> set ps. 0 < residual g p) \<longrightarrow> 0 < k)"
proof (induction ps arbitrary: b)
  case Nil
  then show ?case by simp
next
  case (Cons p ps)
  from Cons [of "min b (residual g p)"] show ?case by auto
qed

lemma botella_de_Inf:
  "ps \<noteq> [] \<Longrightarrow> \<forall>p \<in> set ps. 0 < residual g p \<Longrightarrow>
   \<exists>k. botella_de g Inf ps = Fin k \<and> 0 < k \<and> (\<forall>p \<in> set ps. k \<le> residual g p)"
proof (cases ps)
  case Nil
  then show "ps \<noteq> [] \<Longrightarrow> ?thesis" by simp
next
  case (Cons p qs)
  assume "\<forall>p \<in> set ps. 0 < residual g p"
  with Cons botella_de_Fin [of g "residual g p" qs] show ?thesis by auto
qed

text \<open>The bottleneck stays \<open>float("inf")\<close> only over the empty walk.\<close>

lemma calcular_botella_Inf_aux:
  "calcular_botella g padre fuente v botella = Some r \<Longrightarrow> r = Inr Inf \<Longrightarrow>
   v = fuente \<and> botella = Inf"
proof (induction rule: calcular_botella.raw_induct [rotated 1, consumes 1, case_names paso])
  case (paso cb g padre fuente v botella r)
  show ?case
  proof (cases "v = fuente")
    case True
    with paso(2,3) show ?thesis by simp
  next
    case False
    with paso(2,3) obtain u dir where p: "padre v = Some (Some (u, dir))"
      by (auto split: option.splits)
    with False paso(2) have "cb g padre fuente u (if dir = 1 then minimo botella (residual_adelante g u v)
        else minimo botella (residual_atras g u v)) = Some r" by simp
    from paso(1) [OF this paso(3)] show ?thesis by (cases botella) (auto split: if_splits)
  qed
qed

lemma calcular_botella_Inf:
  "calcular_botella g padre fuente v botella = Some (Inr Inf) \<Longrightarrow> v = fuente \<and> botella = Inf"
  by (rule calcular_botella_Inf_aux) simp_all

subsection \<open>Writing along a path keeps the flows within the capacities\<close>

lemma escribir_marco [simp]:
  "capacidad (escribir g u d v b) = capacidad g"
  "ady (escribir g u d v b) = ady g"
  "nodos' (escribir g u d v b) = nodos' g"
  by (simp_all add: escribir_def)

lemma escribir_tramos_marco [simp]:
  "capacidad (escribir_tramos g b ps) = capacidad g"
  "ady (escribir_tramos g b ps) = ady g"
  "nodos' (escribir_tramos g b ps) = nodos' g"
  by (induction ps arbitrary: g; auto)+

lemma obtener_flujo_escribir:
  "obtener (flujo (escribir g u d v b)) x y =
     (if (x, y) = ranura (u, d, v) then obtener (flujo g) x y + (if d = 1 then b else - b)
      else obtener (flujo g) x y)"
  by (auto simp: escribir_def obtener_poner)

lemma residual_escribir_otro:
  assumes "ranura p \<noteq> ranura (u, d, v)"
  shows "residual (escribir g u d v b) p = residual g p"
proof -
  obtain u' d' v' where p: "p = (u', d', v')" by (cases p)
  have "obtener (flujo (escribir g u d v b)) (fst (ranura p)) (snd (ranura p)) =
        obtener (flujo g) (fst (ranura p)) (snd (ranura p))"
    using assms by (subst obtener_flujo_escribir) (simp del: ranura.simps)
  then show ?thesis
    by (cases "d' = 1") (simp_all add: p residual_adelante_def residual_atras_def)
qed

lemma flujo_acotado_escribir:
  assumes "flujo_acotado g" "0 < b" "b \<le> residual g (u, d, v)"
  shows "flujo_acotado (escribir g u d v b)"
  unfolding flujo_acotado_def
proof (intro allI)
  fix x y
  from assms(1) have xy: "0 \<le> obtener (flujo g) x y" "obtener (flujo g) x y \<le> obtener (capacidad g) x y"
    by (simp_all add: flujo_acotado_def)
  show "0 \<le> obtener (flujo (escribir g u d v b)) x y \<and>
        obtener (flujo (escribir g u d v b)) x y \<le> obtener (capacidad (escribir g u d v b)) x y"
    using xy assms(2,3)
    by (auto simp: obtener_flujo_escribir residual_adelante_def residual_atras_def split: if_splits)
qed

lemma flujo_acotado_tramos:
  "flujo_acotado g \<Longrightarrow> 0 < b \<Longrightarrow> distinct (map ranura ps) \<Longrightarrow>
   \<forall>p \<in> set ps. b \<le> residual g p \<Longrightarrow> flujo_acotado (escribir_tramos g b ps)"
proof (induction ps arbitrary: g)
  case Nil
  then show ?case by simp
next
  case (Cons p ps)
  obtain u d v where p: "p = (u, d, v)" by (cases p)
  from Cons.prems p have 1: "flujo_acotado (escribir g u d v b)"
    by (intro flujo_acotado_escribir) auto
  have 2: "\<forall>q \<in> set ps. b \<le> residual (escribir g u d v b) q"
  proof
    fix q assume q: "q \<in> set ps"
    then have "ranura q \<in> set (map ranura ps)" by (simp del: ranura.simps)
    moreover have "ranura (u, d, v) \<notin> set (map ranura ps)"
      using Cons.prems(3) p by (simp del: ranura.simps)
    ultimately have "ranura q \<noteq> ranura (u, d, v)" by metis
    then have "residual (escribir g u d v b) q = residual g q" by (rule residual_escribir_otro)
    with Cons.prems(4) q show "b \<le> residual (escribir g u d v b) q" by simp
  qed
  from Cons.IH [OF 1 Cons.prems(2) _ 2] Cons.prems(3) p show ?case by simp
qed

lemma flujo_acotado_prefijo:
  assumes "flujo_acotado g" "0 < b" "distinct (map ranura ps)" "\<forall>p \<in> set ps. b \<le> residual g p"
  shows "flujo_acotado (escribir_tramos g b (take k ps))"
proof (rule flujo_acotado_tramos [OF assms(1,2)])
  show "distinct (map ranura (take k ps))"
    using assms(3) by (simp add: take_map [symmetric] distinct_take)
  show "\<forall>p \<in> set (take k ps). b \<le> residual g p"
    using assms(4) by (auto dest: in_set_takeD)
qed

subsection \<open>The flow reset\<close>

lemma entrada_reiniciar:
  "entrada (flujo (reiniciar_flujos g)) u v = map_option (\<lambda>x. 0) (entrada (flujo g) u v)"
proof -
  have 1: "map_of (map (\<lambda>(u, r). (u, f r)) d) u = map_option f (map_of d u)"
    for f :: "fila \<Rightarrow> fila" and d :: tabla
    by (induction d) auto
  have 2: "map_of (map (\<lambda>(v, x). (v, 0 :: int)) r) v = map_option (\<lambda>x. 0) (map_of r v)" for r :: fila
    by (induction r) auto
  show ?thesis
    by (auto simp: entrada_def fila_de_def reiniciar_flujos_def 1 2 split: option.splits)
qed

lemma obtener_reiniciar [simp]: "obtener (flujo (reiniciar_flujos g)) u v = 0"
  by (simp add: obtener_def entrada_reiniciar split: option.splits)

lemma reiniciar_marco [simp]:
  "capacidad (reiniciar_flujos g) = capacidad g"
  "ady (reiniciar_flujos g) = ady g"
  "nodos' (reiniciar_flujos g) = nodos' g"
  by (simp_all add: reiniciar_flujos_def)

lemma flujo_acotado_reiniciar: "bien_formada g \<Longrightarrow> flujo_acotado (reiniciar_flujos g)"
  by (simp add: flujo_acotado_def obtener_no_negativo)

subsection \<open>One iteration\<close>

lemma iteracion_Sigue:
  assumes "busqueda_correcta buscar" and "iteracion buscar g s t = Some (Sigue b, g2)"
  shows "\<exists>padre ps. buscar g s t = Inr (Some padre) \<and> es_camino padre s t ps \<and>
           (\<forall>p \<in> set ps. 0 < residual g p) \<and>
           (ps = [] \<and> b = Inf \<and> g2 = g \<or>
            ps \<noteq> [] \<and> (\<exists>k. b = Fin k \<and> 0 < k \<and> (\<forall>p \<in> set ps. k \<le> residual g p) \<and>
                           calcular_botella g padre s t Inf = Some (Inr (Fin k)) \<and>
                           g2 = escribir_tramos g k ps))"
proof -
  from assms(2) obtain padre where padre: "buscar g s t = Inr (Some padre)"
    by (auto simp: iteracion_def split: sum.splits option.splits)
  with assms(1) obtain ps where ps: "es_camino padre s t ps" "\<forall>p \<in> set ps. 0 < residual g p"
    unfolding busqueda_correcta_def by blast
  have cb: "calcular_botella g padre s t Inf = Some (Inr (botella_de g Inf ps))"
    using ps(1) by (rule calcular_botella_camino)
  show ?thesis
  proof (cases "ps = []")
    case True
    with assms(2) padre cb have "b = Inf" "g2 = g" by (simp_all add: iteracion_def)
    with padre ps True show ?thesis by blast
  next
    case False
    with ps(2) obtain k where k: "botella_de g Inf ps = Fin k" "0 < k" "\<forall>p \<in> set ps. k \<le> residual g p"
      using botella_de_Inf [of ps g] by blast
    have "aplicar_botella g padre s t k = Some (Inr (), escribir_tramos g k ps)"
      using ps(1) by (rule aplicar_botella_camino)
    with assms(2) padre cb k have "b = Fin k" "g2 = escribir_tramos g k ps"
      by (simp_all add: iteracion_def)
    with padre ps False k cb show ?thesis by auto
  qed
qed

lemma iteracion_flujo_acotado:
  assumes "busqueda_correcta buscar" "iteracion buscar g s t = Some (Sigue b, g2)" "flujo_acotado g"
  shows "flujo_acotado g2"
proof -
  from iteracion_Sigue [OF assms(1,2)] obtain padre ps where
    ps: "es_camino padre s t ps" and
    r: "ps = [] \<and> g2 = g \<or> (\<exists>k. 0 < k \<and> (\<forall>p \<in> set ps. k \<le> residual g p) \<and> g2 = escribir_tramos g k ps)"
    by blast
  from r show ?thesis
  proof
    assume "ps = [] \<and> g2 = g"
    with assms(3) show ?thesis by simp
  next
    assume "\<exists>k. 0 < k \<and> (\<forall>p \<in> set ps. k \<le> residual g p) \<and> g2 = escribir_tramos g k ps"
    then obtain k where "0 < k" "\<forall>p \<in> set ps. k \<le> residual g p" "g2 = escribir_tramos g k ps"
      by blast
    with assms(3) es_camino_ranuras [OF ps] show ?thesis
      by (simp add: flujo_acotado_tramos)
  qed
qed

lemma aplicar_botella_marco_aux:
  "aplicar_botella g padre s v b = Some y \<Longrightarrow>
   capacidad (snd y) = capacidad g \<and> ady (snd y) = ady g \<and> nodos' (snd y) = nodos' g"
proof (induction rule: aplicar_botella.raw_induct [rotated 1, consumes 1, case_names paso])
  case (paso ab g padre s v b y)
  show ?case
  proof (cases "v = s")
    case True
    with paso(2) show ?thesis by auto
  next
    case False
    show ?thesis
    proof (cases "padre v")
      case None
      with False paso(2) show ?thesis by auto
    next
      case (Some o1)
      show ?thesis
      proof (cases o1)
        case None
        with Some False paso(2) show ?thesis by auto
      next
        case (Some ud)
        obtain u d where "ud = (u, d)" by (cases ud)
        with Some \<open>padre v = Some o1\<close> False paso(2)
        have "ab (escribir g u d v b) padre s u b = Some y" by simp
        from paso(1) [OF this] show ?thesis by simp
      qed
    qed
  qed
qed

lemma aplicar_botella_marco:
  "aplicar_botella g padre s v b = Some (r, g2) \<Longrightarrow>
   capacidad g2 = capacidad g \<and> ady g2 = ady g \<and> nodos' g2 = nodos' g"
  by (drule aplicar_botella_marco_aux) simp

lemma iteracion_marco:
  assumes "iteracion buscar g s t = Some (r, g2)"
  shows "capacidad g2 = capacidad g \<and> ady g2 = ady g \<and> nodos' g2 = nodos' g"
  using assms
  by (auto simp: iteracion_def split: sum.splits option.splits valor.splits prod.splits
           dest!: aplicar_botella_marco)

subsection \<open>The breadth-first search delivers an augmenting path\<close>

definition alcanzado :: "red \<Rightarrow> padres \<Rightarrow> nodo \<Rightarrow> nodo \<Rightarrow> bool" where
  "alcanzado g padre s v \<longleftrightarrow> (\<exists>ps. es_camino padre s v ps \<and> (\<forall>p \<in> set ps. 0 < residual g p))"

lemma es_camino_con_padre:
  "es_camino padre s v ps \<Longrightarrow> (u, d, w) \<in> set ps \<Longrightarrow> \<not> sin_padre padre w"
proof (induction ps arbitrary: v)
  case Nil
  then show ?case by simp
next
  case (Cons p ps)
  obtain u' d' w' where "p = (u', d', w')" by (cases p)
  with Cons show ?case by (auto simp: sin_padre_def)
qed

lemma es_camino_upd:
  "es_camino padre s v ps \<Longrightarrow> sin_padre padre w \<Longrightarrow> es_camino (padre(w \<mapsto> x)) s v ps"
proof (induction ps arbitrary: v)
  case Nil
  then show ?case by simp
next
  case (Cons p ps)
  obtain u' d' w' where p: "p = (u', d', w')" by (cases p)
  with Cons.prems have "w' \<noteq> w" by (auto simp: sin_padre_def)
  with Cons p show ?case by auto
qed

lemma alcanzado_upd:
  "alcanzado g padre s v \<Longrightarrow> sin_padre padre w \<Longrightarrow> alcanzado g (padre(w \<mapsto> x)) s v"
  unfolding alcanzado_def by (blast intro: es_camino_upd)

lemma alcanzado_nuevo:
  assumes "alcanzado g padre s u" "sin_padre padre v" "v \<noteq> s"
    and "residual_adelante g u v > 0 \<or> residual_atras g u v > 0"
  shows "alcanzado g (padre(v \<mapsto> Some (u, dir_de g u v))) s v"
proof -
  from assms(1) obtain ps where ps: "es_camino padre s u ps" "\<forall>p \<in> set ps. 0 < residual g p"
    unfolding alcanzado_def by blast
  let ?padre = "padre(v \<mapsto> Some (u, dir_de g u v))"
  from ps(1) assms(2) have "es_camino ?padre s u ps" by (rule es_camino_upd)
  with assms(3) have "es_camino ?padre s v ((u, dir_de g u v, v) # ps)" by simp
  moreover from assms(4) have "0 < residual g (u, dir_de g u v, v)"
    by (auto simp: dir_de_def)
  ultimately show ?thesis using ps(2) unfolding alcanzado_def
    by (intro exI [of _ "(u, dir_de g u v, v) # ps"]) simp
qed

definition bfs_inv :: "red \<Rightarrow> nodo \<Rightarrow> padres \<Rightarrow> nodo list \<Rightarrow> bool" where
  "bfs_inv g s padre q \<longleftrightarrow>
     \<not> sin_padre padre s \<and> (\<forall>v. \<not> sin_padre padre v \<longrightarrow> alcanzado g padre s v) \<and>
     (\<forall>u \<in> set q. \<not> sin_padre padre u)"

lemma bfs_inv_nuevo:
  assumes "bfs_inv g s padre q" "\<not> sin_padre padre u" "sin_padre padre v"
    and "residual_adelante g u v > 0 \<or> residual_atras g u v > 0"
  shows "bfs_inv g s (padre(v \<mapsto> Some (u, dir_de g u v))) (q @ [v])"
    and "bfs_inv g s (padre(v \<mapsto> Some (u, dir_de g u v))) q"
proof -
  from assms(1,3) have vs: "v \<noteq> s" by (auto simp: bfs_inv_def)
  from assms(1,2) have u: "alcanzado g padre s u" by (simp add: bfs_inv_def)
  have n: "alcanzado g (padre(v \<mapsto> Some (u, dir_de g u v))) s v"
    using u assms(3) vs assms(4) by (rule alcanzado_nuevo)
  have o: "alcanzado g (padre(v \<mapsto> Some (u, dir_de g u v))) s w" if "\<not> sin_padre padre w" for w
    using that assms(1,3) by (auto simp: bfs_inv_def intro: alcanzado_upd)
  show "bfs_inv g s (padre(v \<mapsto> Some (u, dir_de g u v))) (q @ [v])"
    using assms(1) vs n o by (auto simp: bfs_inv_def sin_padre_upd)
  show "bfs_inv g s (padre(v \<mapsto> Some (u, dir_de g u v))) q"
    using assms(1) vs n o by (auto simp: bfs_inv_def sin_padre_upd)
qed

lemma bfs_vecinos_inv:
  "bfs_vecinos g u t vs padre q = (r, padre', q') \<Longrightarrow> bfs_inv g s padre q \<Longrightarrow>
   \<not> sin_padre padre u \<Longrightarrow>
   bfs_inv g s padre' q' \<and> \<not> sin_padre padre' u \<and> (r \<longrightarrow> \<not> sin_padre padre' t)"
proof (induction vs arbitrary: padre q)
  case Nil
  then show ?case by simp
next
  case (Cons v vs)
  show ?case
  proof (cases "sin_padre padre v \<and> (residual_adelante g u v > 0 \<or> residual_atras g u v > 0)")
    case False
    from Cons.prems(1) have "bfs_vecinos g u t vs padre q = (r, padre', q')"
      by (simp only: bfs_vecinos_salta [OF False])
    from Cons.IH [OF this Cons.prems(2,3)] show ?thesis .
  next
    case True
    define p where "p = padre(v \<mapsto> Some (u, dir_de g u v))"
    have inv: "bfs_inv g s p (q @ [v])" "bfs_inv g s p q"
      unfolding p_def using bfs_inv_nuevo [OF Cons.prems(2,3)] True by blast+
    have u: "\<not> sin_padre p u" using Cons.prems(3) by (simp add: p_def sin_padre_upd)
    show ?thesis
    proof (cases "v = t")
      case vt: True
      have "bfs_vecinos g u t (v # vs) padre q = (True, p, q)"
        unfolding p_def using True vt by (intro bfs_vecinos_llega) auto
      with Cons.prems(1) have "padre' = p" "q' = q" "r" by simp_all
      moreover have "\<not> sin_padre p t" by (simp add: p_def sin_padre_upd vt)
      ultimately show ?thesis using inv u by simp
    next
      case False
      with True have "bfs_vecinos g u t (v # vs) padre q = bfs_vecinos g u t vs p (q @ [v])"
        unfolding p_def by (intro bfs_vecinos_encola) auto
      with Cons.prems(1) have "bfs_vecinos g u t vs p (q @ [v]) = (r, padre', q')" by simp
      from Cons.IH [OF this inv(1) u] show ?thesis .
    qed
  qed
qed

lemma bfs_cola_inv:
  "bfs_cola g t padre q = Some padre' \<Longrightarrow> bfs_inv g s padre q \<Longrightarrow> alcanzado g padre' s t"
proof (induction g t padre q rule: bfs_cola.induct)
  case (1 g sumidero padre)
  then show ?case by simp
next
  case (2 g sumidero padre u q)
  show ?case
  proof (cases "u = sumidero")
    case True
    with "2.prems" show ?thesis by (auto simp: bfs_inv_def)
  next
    case False
    obtain r p1 q1 where v: "bfs_vecinos g u sumidero (fila_de (ady g) u) padre q = (r, p1, q1)"
      by (cases "bfs_vecinos g u sumidero (fila_de (ady g) u) padre q") auto
    from "2.prems"(2) have "bfs_inv g s padre q" "\<not> sin_padre padre u"
      by (auto simp: bfs_inv_def)
    from bfs_vecinos_inv [OF v this]
    have inv: "bfs_inv g s p1 q1" "r \<longrightarrow> \<not> sin_padre p1 sumidero" by blast+
    show ?thesis
    proof (cases r)
      case True
      with "2.prems"(1) False v have "padre' = p1" by simp
      with inv True show ?thesis by (auto simp: bfs_inv_def)
    next
      case nr: False
      with "2.prems"(1) False v have "bfs_cola g sumidero p1 q1 = Some padre'" by simp
      from "2.IH" [OF False v [symmetric] _ refl this inv(1)] nr show ?thesis by simp
    qed
  qed
qed

lemma buscar_bfs_correcta: "busqueda_correcta buscar_bfs"
  unfolding busqueda_correcta_def
proof (intro allI impI)
  fix g fuente sumidero padre
  assume "buscar_bfs g fuente sumidero = Inr (Some padre)"
  then have c: "bfs_cola g sumidero
      ((\<lambda>n. if n \<in> set (nodos' g) then Some None else None)(fuente \<mapsto> Some (fuente, 0))) [fuente]
      = Some padre"
    by (simp add: buscar_bfs_def bfs_aumento_def)
  have "bfs_inv g fuente
      ((\<lambda>n. if n \<in> set (nodos' g) then Some None else None)(fuente \<mapsto> Some (fuente, 0))) [fuente]"
  proof -
    have "alcanzado g ((\<lambda>n. if n \<in> set (nodos' g) then Some None else None)
        (fuente \<mapsto> Some (fuente, 0))) fuente v"
      if "\<not> sin_padre ((\<lambda>n. if n \<in> set (nodos' g) then Some None else None)
        (fuente \<mapsto> Some (fuente, 0))) v" for v
    proof -
      from that have "v = fuente" by (auto simp: sin_padre_def split: if_splits)
      then show ?thesis unfolding alcanzado_def by (intro exI [of _ "[]"]) simp
    qed
    then show ?thesis by (auto simp: bfs_inv_def sin_padre_def)
  qed
  from bfs_cola_inv [OF c this]
  show "\<exists>ps. es_camino padre fuente sumidero ps \<and> (\<forall>p \<in> set ps. 0 < residual g p)"
    by (simp add: alcanzado_def)
qed

subsection \<open>The depth-first search delivers an augmenting path\<close>

text \<open>One of the two attempts of the loop body on a neighbour, with its direction tag.\<close>

definition intento ::
  "nat \<Rightarrow> red \<Rightarrow> nodo \<Rightarrow> nodo \<Rightarrow> nodo \<Rightarrow> int \<Rightarrow> nodo set \<Rightarrow> padres \<Rightarrow> error + bool \<times> nodo set \<times> padres"
where
  "intento n g a t v d vis p =
     (if v \<notin> vis \<and> 0 < residual g (a, d, v)
      then dfs_aumento n g v t vis (p(v \<mapsto> Some (a, d)))
      else Inr (False, vis, p))"

lemma dfs_vecinos_Cons:
  "dfs_vecinos n g a t (v # resto) vis p =
     (case intento n g a t v 1 vis p of
        Inl e \<Rightarrow> Inl e
      | Inr (True, vis1, p1) \<Rightarrow> Inr (True, vis1, p1)
      | Inr (False, vis1, p1) \<Rightarrow>
          (case intento n g a t v (- 1) vis1 p1 of
             Inl e \<Rightarrow> Inl e
           | Inr (True, vis2, p2) \<Rightarrow> Inr (True, vis2, p2)
           | Inr (False, vis2, p2) \<Rightarrow> dfs_vecinos n g a t resto vis2 p2))"
  by (auto simp: intento_def split: sum.splits prod.splits bool.splits)

declare dfs_vecinos.simps(2) [simp del]

text \<open>What a call leaves: \<open>visitado\<close> has only grown, the entries of \<open>padre\<close> for the
  nodes of \<open>X\<close> are untouched, and when the call returns \<open>True\<close> the walk from the sink
  along \<open>padre\<close> leads to \<open>a\<close> over nodes outside \<open>X\<close> and steps of positive residual
  capacity.\<close>

definition bueno ::
  "red \<Rightarrow> nodo \<Rightarrow> nodo \<Rightarrow> nodo set \<Rightarrow> nodo set \<Rightarrow> padres \<Rightarrow> bool \<times> nodo set \<times> padres \<Rightarrow> bool"
where
  "bueno g a t vis X p res \<longleftrightarrow>
     (case res of (r, vis', p') \<Rightarrow>
        vis \<subseteq> vis' \<and> (\<forall>x \<in> X. p' x = p x) \<and>
        (r \<longrightarrow> (\<exists>ps. es_camino p' a t ps \<and> (\<forall>(u, d, w) \<in> set ps. w \<notin> X) \<and>
                     (\<forall>q \<in> set ps. 0 < residual g q))))"

lemma es_camino_extender:
  "es_camino p v t ps \<Longrightarrow> \<forall>(u, d, w) \<in> set ps. w \<noteq> a \<Longrightarrow> v \<noteq> a \<Longrightarrow>
   p v = Some (Some (a, d)) \<Longrightarrow> es_camino p a t (ps @ [(a, d, v)])"
proof (induction ps arbitrary: t)
  case Nil
  then show ?case by simp
next
  case (Cons q ps)
  obtain u' d' w' where "q = (u', d', w')" by (cases q)
  with Cons show ?case by auto
qed

lemma bueno_trans:
  assumes "bueno g a t vis vis p (False, vis1, p1)" "bueno g a t vis1 vis1 p1 res"
  shows "bueno g a t vis vis p res"
proof -
  obtain r vis' p' where res: "res = (r, vis', p')" by (cases res)
  from assms(1) have 1: "vis \<subseteq> vis1" "\<forall>x \<in> vis. p1 x = p x" by (auto simp: bueno_def)
  from assms(2) res have 2: "vis1 \<subseteq> vis'" "\<forall>x \<in> vis1. p' x = p1 x"
    "r \<longrightarrow> (\<exists>ps. es_camino p' a t ps \<and> (\<forall>(u, d, w) \<in> set ps. w \<notin> vis1) \<and>
                     (\<forall>q \<in> set ps. 0 < residual g q))"
    by (auto simp: bueno_def)
  have "\<forall>x \<in> vis. p' x = p x" using 1 2(2) by auto
  moreover have "r \<longrightarrow> (\<exists>ps. es_camino p' a t ps \<and> (\<forall>(u, d, w) \<in> set ps. w \<notin> vis) \<and>
                     (\<forall>q \<in> set ps. 0 < residual g q))"
    using 2(3) 1(1) by fastforce
  ultimately show ?thesis using 1(1) 2(1) res by (auto simp: bueno_def)
qed

lemma intento_bueno:
  assumes ih: "v \<notin> vis \<and> 0 < residual g (a, d, v) \<Longrightarrow>
         \<forall>res. dfs_aumento n g v t vis (p(v \<mapsto> Some (a, d))) = Inr res \<longrightarrow>
           bueno g v t vis (insert v vis) (p(v \<mapsto> Some (a, d))) res"
    and a: "a \<in> vis" and i: "intento n g a t v d vis p = Inr res"
  shows "bueno g a t vis vis p res"
proof (cases "v \<notin> vis \<and> 0 < residual g (a, d, v)")
  case False
  with i have "res = (False, vis, p)" by (auto simp: intento_def)
  then show ?thesis by (simp add: bueno_def)
next
  case True
  define p1 where "p1 = p(v \<mapsto> Some (a, d))"
  from True i have "dfs_aumento n g v t vis p1 = Inr res" by (simp add: intento_def p1_def)
  moreover from ih True
  have "\<forall>res. dfs_aumento n g v t vis p1 = Inr res \<longrightarrow> bueno g v t vis (insert v vis) p1 res"
    unfolding p1_def by blast
  ultimately have b: "bueno g v t vis (insert v vis) p1 res" by blast
  obtain r vis' p' where res: "res = (r, vis', p')" by (cases res)
  from b res have 1: "vis \<subseteq> vis'" and 2: "\<forall>x \<in> insert v vis. p' x = p1 x"
    and 3: "r \<longrightarrow> (\<exists>ps. es_camino p' v t ps \<and> (\<forall>(u, d, w) \<in> set ps. w \<notin> insert v vis) \<and>
                     (\<forall>q \<in> set ps. 0 < residual g q))"
    by (auto simp: bueno_def)
  from True a have va: "v \<noteq> a" by auto
  have f: "\<forall>x \<in> vis. p' x = p x" using 2 True by (auto simp: p1_def)
  have c: "\<exists>ps. es_camino p' a t ps \<and> (\<forall>(u, d, w) \<in> set ps. w \<notin> vis) \<and>
                     (\<forall>q \<in> set ps. 0 < residual g q)" if r
  proof -
    from 3 that obtain ps where ps: "es_camino p' v t ps"
      "\<forall>(u, d, w) \<in> set ps. w \<notin> insert v vis" "\<forall>q \<in> set ps. 0 < residual g q" by blast
    from ps(2) a have na: "\<forall>(u, d, w) \<in> set ps. w \<noteq> a" by fastforce
    from 2 have pv: "p' v = Some (Some (a, d))" by (simp add: p1_def)
    have "es_camino p' a t (ps @ [(a, d, v)])"
      using ps(1) na va pv by (rule es_camino_extender)
    moreover have "\<forall>(u, d, w) \<in> set (ps @ [(a, d, v)]). w \<notin> vis" using ps(2) True by fastforce
    moreover have "\<forall>q \<in> set (ps @ [(a, d, v)]). 0 < residual g q" using ps(3) True by auto
    ultimately show ?thesis by blast
  qed
  from 1 f c res show ?thesis by (auto simp: bueno_def)
qed

lemma dfs_bueno:
  "(\<forall>res. dfs_aumento n g a t vis p = Inr res \<longrightarrow> bueno g a t vis (insert a vis) p res)"
  "(a \<in> vis \<longrightarrow> (\<forall>res. dfs_vecinos n g a t vs vis p = Inr res \<longrightarrow> bueno g a t vis vis p res))"
proof (induction n g a t vis p and n g a t vs vis p rule: dfs_aumento_dfs_vecinos.induct)
  case (1 g actual sumidero visitado padre)
  then show ?case by simp
next
  case (2 n g actual sumidero visitado padre)
  show ?case
  proof (intro allI impI)
    fix res
    assume r: "dfs_aumento (Suc n) g actual sumidero visitado padre = Inr res"
    show "bueno g actual sumidero visitado (insert actual visitado) padre res"
    proof (cases "actual = sumidero")
      case True
      with r have "res = (True, visitado, padre)" by simp
      moreover have "es_camino padre sumidero sumidero []" by simp
      ultimately show ?thesis unfolding bueno_def using True
        by (auto intro!: exI [of _ "[]"])
    next
      case False
      with r have "dfs_vecinos n g actual sumidero (fila_de (ady g) actual)
          (insert actual visitado) padre = Inr res" by simp
      with 2 False have "bueno g actual sumidero (insert actual visitado) (insert actual visitado)
          padre res" by simp
      then show ?thesis by (auto simp: bueno_def)
    qed
  qed
next
  case (3 n g actual sumidero visitado padre)
  then show ?case by (simp add: bueno_def)
next
  case (4 n g actual sumidero vecino resto visitado padre)
  show ?case
  proof (intro allI impI)
    fix res
    assume a: "actual \<in> visitado"
      and r: "dfs_vecinos n g actual sumidero (vecino # resto) visitado padre = Inr res"
    have i1: "intento n g actual sumidero vecino 1 visitado padre =
        (if vecino \<notin> visitado \<and> 0 < residual_adelante g actual vecino
         then dfs_aumento n g vecino sumidero visitado (padre(vecino \<mapsto> Some (actual, 1)))
         else Inr (False, visitado, padre))"
      by (simp add: intento_def)
    have i2: "intento n g actual sumidero vecino (- 1) vis1 p1 =
        (if vecino \<notin> vis1 \<and> 0 < residual_atras g actual vecino
         then dfs_aumento n g vecino sumidero vis1 (p1(vecino \<mapsto> Some (actual, - 1)))
         else Inr (False, vis1, p1))" for vis1 p1
      by (simp add: intento_def)
    from r obtain res1 where res1: "intento n g actual sumidero vecino 1 visitado padre = Inr res1"
      by (auto simp: dfs_vecinos_Cons split: sum.splits)
    have b1: "bueno g actual sumidero visitado visitado padre res1"
    proof (rule intento_bueno [OF _ a res1])
      assume "vecino \<notin> visitado \<and> 0 < residual g (actual, 1, vecino)"
      then have "vecino \<notin> visitado \<and> 0 < residual_adelante g actual vecino" by simp
      then show "\<forall>res. dfs_aumento n g vecino sumidero visitado (padre(vecino \<mapsto> Some (actual, 1)))
          = Inr res \<longrightarrow> bueno g vecino sumidero visitado (insert vecino visitado)
            (padre(vecino \<mapsto> Some (actual, 1))) res"
        by (rule "4.IH"(1))
    qed
    obtain r1 vis1 p1 where t1: "res1 = (r1, vis1, p1)" by (cases res1)
    show "bueno g actual sumidero visitado visitado padre res"
    proof (cases r1)
      case True
      with r res1 t1 have "res = res1" by (simp add: dfs_vecinos_Cons)
      with b1 show ?thesis by simp
    next
      case nr1: False
      from b1 t1 a have a1: "actual \<in> vis1" by (auto simp: bueno_def)
      from r res1 t1 nr1 obtain res2 where
        res2: "intento n g actual sumidero vecino (- 1) vis1 p1 = Inr res2"
        by (auto simp: dfs_vecinos_Cons split: sum.splits)
      have b2: "bueno g actual sumidero vis1 vis1 p1 res2"
      proof (rule intento_bueno [OF _ a1 res2])
        assume c: "vecino \<notin> vis1 \<and> 0 < residual g (actual, - 1, vecino)"
        show "\<forall>res. dfs_aumento n g vecino sumidero vis1 (p1(vecino \<mapsto> Some (actual, - 1)))
            = Inr res \<longrightarrow> bueno g vecino sumidero vis1 (insert vecino vis1)
              (p1(vecino \<mapsto> Some (actual, - 1))) res"
        proof (rule "4.IH"(2))
          show "(if vecino \<notin> visitado \<and> 0 < residual_adelante g actual vecino
            then dfs_aumento n g vecino sumidero visitado (padre(vecino \<mapsto> Some (actual, 1)))
            else Inr (False, visitado, padre)) = Inr res1"
            using res1 i1 by simp
          show "(r1, vis1, p1) = res1" using t1 by simp
          show "r1 = False" using nr1 by simp
          show "(vis1, p1) = (vis1, p1)" by simp
          show "vecino \<notin> vis1 \<and> 0 < residual_atras g actual vecino" using c by simp
        qed
      qed
      obtain r2 vis2 p2 where t2: "res2 = (r2, vis2, p2)" by (cases res2)
      have b12: "bueno g actual sumidero visitado visitado padre res2"
        using b1 b2 t1 nr1 by (auto intro: bueno_trans)
      show ?thesis
      proof (cases r2)
        case True
        with r res1 t1 nr1 res2 t2 have "res = res2" by (simp add: dfs_vecinos_Cons)
        with b12 show ?thesis by simp
      next
        case nr2: False
        from b2 t2 a1 have a2: "actual \<in> vis2" by (auto simp: bueno_def)
        from r res1 t1 nr1 res2 t2 nr2
        have rr: "dfs_vecinos n g actual sumidero resto vis2 p2 = Inr res"
          by (simp add: dfs_vecinos_Cons)
        have "actual \<in> vis2 \<longrightarrow> (\<forall>res. dfs_vecinos n g actual sumidero resto vis2 p2 = Inr res \<longrightarrow>
            bueno g actual sumidero vis2 vis2 p2 res)"
        proof (rule "4.IH"(3))
          show "(if vecino \<notin> visitado \<and> 0 < residual_adelante g actual vecino
            then dfs_aumento n g vecino sumidero visitado (padre(vecino \<mapsto> Some (actual, 1)))
            else Inr (False, visitado, padre)) = Inr res1"
            using res1 i1 by simp
          show "(r1, vis1, p1) = res1" using t1 by simp
          show "r1 = False" using nr1 by simp
          show "(vis1, p1) = (vis1, p1)" by simp
          show "(if vecino \<notin> vis1 \<and> 0 < residual_atras g actual vecino
            then dfs_aumento n g vecino sumidero vis1 (p1(vecino \<mapsto> Some (actual, - 1)))
            else Inr (False, vis1, p1)) = Inr res2"
            using res2 i2 by simp
          show "(r2, vis2, p2) = res2" using t2 by simp
          show "r2 = False" using nr2 by simp
          show "(vis2, p2) = (vis2, p2)" by simp
        qed
        with a2 rr have "bueno g actual sumidero vis2 vis2 p2 res" by simp
        with b12 t2 nr2 show ?thesis by (auto intro: bueno_trans)
      qed
    qed
  qed
qed

lemma buscar_dfs_correcta: "busqueda_correcta buscar_dfs"
  unfolding busqueda_correcta_def
proof (intro allI impI)
  fix g fuente sumidero padre
  assume "buscar_dfs g fuente sumidero = Inr (Some padre)"
  then obtain vis where "dfs_aumento (limite g) g fuente sumidero {} Map.empty = Inr (True, vis, padre)"
    by (auto simp: buscar_dfs_def split: sum.splits if_splits)
  with dfs_bueno(1) [of "limite g" g fuente sumidero "{}" Map.empty]
  have "bueno g fuente sumidero {} {fuente} Map.empty (True, vis, padre)" by simp
  then show "\<exists>ps. es_camino padre fuente sumidero ps \<and> (\<forall>p \<in> set ps. 0 < residual g p)"
    by (auto simp: bueno_def)
qed

subsection \<open>The depth-first search stays within its recursion limit\<close>

lemma intento_termina:
  assumes ih: "v \<notin> vis \<and> 0 < residual g (a, d, v) \<Longrightarrow>
         \<exists>res. dfs_aumento n g v t vis (p(v \<mapsto> Some (a, d))) = Inr res"
    and a: "a \<in> vis"
  shows "\<exists>r vis' p'. intento n g a t v d vis p = Inr (r, vis', p') \<and> vis \<subseteq> vis'"
proof -
  have "\<exists>res. intento n g a t v d vis p = Inr res"
  proof (cases "v \<notin> vis \<and> 0 < residual g (a, d, v)")
    case True
    with ih obtain res where "dfs_aumento n g v t vis (p(v \<mapsto> Some (a, d))) = Inr res" by blast
    moreover from True have "intento n g a t v d vis p =
        dfs_aumento n g v t vis (p(v \<mapsto> Some (a, d)))"
      unfolding intento_def by (rule if_P)
    ultimately show ?thesis by metis
  next
    case False
    then have "intento n g a t v d vis p = Inr (False, vis, p)"
      unfolding intento_def by (rule if_not_P)
    then show ?thesis by blast
  qed
  then obtain res where res: "intento n g a t v d vis p = Inr res" by blast
  have "bueno g a t vis vis p res"
    using dfs_bueno(1) a res by (rule intento_bueno)
  with res show ?thesis by (cases res) (auto simp: bueno_def)
qed

lemma dfs_termina:
  "(a \<in> set (alcanzables g) \<longrightarrow> a \<notin> vis \<longrightarrow> card (set (alcanzables g) - vis) \<le> n \<longrightarrow>
      (\<exists>res. dfs_aumento n g a t vis p = Inr res))"
  "(set vs \<subseteq> set (alcanzables g) \<longrightarrow> a \<in> vis \<longrightarrow> card (set (alcanzables g) - vis) \<le> n \<longrightarrow>
      (\<exists>res. dfs_vecinos n g a t vs vis p = Inr res))"
proof (induction n g a t vis p and n g a t vs vis p rule: dfs_aumento_dfs_vecinos.induct)
  case (1 g actual sumidero visitado padre)
  show ?case
  proof (intro impI)
    assume "actual \<in> set (alcanzables g)" "actual \<notin> visitado"
      "card (set (alcanzables g) - visitado) \<le> 0"
    then have "actual \<in> set (alcanzables g) - visitado" "set (alcanzables g) - visitado = {}"
      by auto
    then show "\<exists>res. dfs_aumento 0 g actual sumidero visitado padre = Inr res" by simp
  qed
next
  case (2 n g actual sumidero visitado padre)
  show ?case
  proof (intro impI)
    assume a: "actual \<in> set (alcanzables g)" "actual \<notin> visitado"
      and c: "card (set (alcanzables g) - visitado) \<le> Suc n"
    show "\<exists>res. dfs_aumento (Suc n) g actual sumidero visitado padre = Inr res"
    proof (cases "actual = sumidero")
      case True
      then have "dfs_aumento (Suc n) g actual sumidero visitado padre =
          Inr (True, visitado, padre)" by simp
      then show ?thesis by blast
    next
      case False
      have "set (alcanzables g) - insert actual visitado = (set (alcanzables g) - visitado) - {actual}"
        by auto
      moreover have "actual \<in> set (alcanzables g) - visitado" using a by simp
      ultimately have "card (set (alcanzables g) - insert actual visitado) \<le> n"
        using c by simp
      with 2 False fila_de_alcanzables [of g actual] obtain res where
        "dfs_vecinos n g actual sumidero (fila_de (ady g) actual) (insert actual visitado) padre
          = Inr res" by blast
      with False have "dfs_aumento (Suc n) g actual sumidero visitado padre = Inr res" by simp
      then show ?thesis by blast
    qed
  qed
next
  case (3 n g actual sumidero visitado padre)
  have "dfs_vecinos n g actual sumidero [] visitado padre = Inr (False, visitado, padre)"
    by simp
  then show ?case by blast
next
  case (4 n g actual sumidero vecino resto visitado padre)
  show ?case
  proof (intro impI)
    assume vs: "set (vecino # resto) \<subseteq> set (alcanzables g)" and a: "actual \<in> visitado"
      and c: "card (set (alcanzables g) - visitado) \<le> n"
    from vs have vU: "vecino \<in> set (alcanzables g)" and rU: "set resto \<subseteq> set (alcanzables g)"
      by simp_all
    have i1: "intento n g actual sumidero vecino 1 visitado padre =
        (if vecino \<notin> visitado \<and> 0 < residual_adelante g actual vecino
         then dfs_aumento n g vecino sumidero visitado (padre(vecino \<mapsto> Some (actual, 1)))
         else Inr (False, visitado, padre))"
      by (simp add: intento_def)
    have i2: "intento n g actual sumidero vecino (- 1) vis1 p1 =
        (if vecino \<notin> vis1 \<and> 0 < residual_atras g actual vecino
         then dfs_aumento n g vecino sumidero vis1 (p1(vecino \<mapsto> Some (actual, - 1)))
         else Inr (False, vis1, p1))" for vis1 p1
      by (simp add: intento_def)
    have "\<exists>r vis' p'. intento n g actual sumidero vecino 1 visitado padre = Inr (r, vis', p')
        \<and> visitado \<subseteq> vis'"
    proof (rule intento_termina [OF _ a])
      assume "vecino \<notin> visitado \<and> 0 < residual g (actual, 1, vecino)"
      then have k: "vecino \<notin> visitado \<and> 0 < residual_adelante g actual vecino" by simp
      from "4.IH"(1) [OF k] k vU c
      show "\<exists>res. dfs_aumento n g vecino sumidero visitado (padre(vecino \<mapsto> Some (actual, 1)))
          = Inr res" by blast
    qed
    then obtain r1 vis1 p1 where
      res1: "intento n g actual sumidero vecino 1 visitado padre = Inr (r1, vis1, p1)"
      and m1: "visitado \<subseteq> vis1" by blast
    show "\<exists>res. dfs_vecinos n g actual sumidero (vecino # resto) visitado padre = Inr res"
    proof (cases r1)
      case True
      with res1 have "dfs_vecinos n g actual sumidero (vecino # resto) visitado padre =
          Inr (True, vis1, p1)" by (simp add: dfs_vecinos_Cons)
      then show ?thesis by blast
    next
      case nr1: False
      from m1 a have a1: "actual \<in> vis1" by auto
      from m1 have "set (alcanzables g) - vis1 \<subseteq> set (alcanzables g) - visitado" by auto
      then have "card (set (alcanzables g) - vis1) \<le> card (set (alcanzables g) - visitado)"
        by (intro card_mono) auto
      with c have c1: "card (set (alcanzables g) - vis1) \<le> n" by simp
      have "\<exists>r vis' p'. intento n g actual sumidero vecino (- 1) vis1 p1 = Inr (r, vis', p')
          \<and> vis1 \<subseteq> vis'"
      proof (rule intento_termina [OF _ a1])
        assume "vecino \<notin> vis1 \<and> 0 < residual g (actual, - 1, vecino)"
        then have k: "vecino \<notin> vis1 \<and> 0 < residual_atras g actual vecino" by simp
        have "vecino \<in> set (alcanzables g) \<longrightarrow> vecino \<notin> vis1 \<longrightarrow>
            card (set (alcanzables g) - vis1) \<le> n \<longrightarrow>
            (\<exists>res. dfs_aumento n g vecino sumidero vis1 (p1(vecino \<mapsto> Some (actual, - 1))) = Inr res)"
        proof (rule "4.IH"(2))
          show "(if vecino \<notin> visitado \<and> 0 < residual_adelante g actual vecino
            then dfs_aumento n g vecino sumidero visitado (padre(vecino \<mapsto> Some (actual, 1)))
            else Inr (False, visitado, padre)) = Inr (r1, vis1, p1)"
            using res1 i1 by simp
          show "(r1, vis1, p1) = (r1, vis1, p1)" by simp
          show "r1 = False" using nr1 by simp
          show "(vis1, p1) = (vis1, p1)" by simp
          show "vecino \<notin> vis1 \<and> 0 < residual_atras g actual vecino" using k by simp
        qed
        with k vU c1
        show "\<exists>res. dfs_aumento n g vecino sumidero vis1 (p1(vecino \<mapsto> Some (actual, - 1)))
            = Inr res" by blast
      qed
      then obtain r2 vis2 p2 where
        res2: "intento n g actual sumidero vecino (- 1) vis1 p1 = Inr (r2, vis2, p2)"
        and m2: "vis1 \<subseteq> vis2" by blast
      show ?thesis
      proof (cases r2)
        case True
        with res1 nr1 res2 have "dfs_vecinos n g actual sumidero (vecino # resto) visitado padre =
            Inr (True, vis2, p2)" by (simp add: dfs_vecinos_Cons)
        then show ?thesis by blast
      next
        case nr2: False
        from m2 a1 have a2: "actual \<in> vis2" by auto
        from m2 have "set (alcanzables g) - vis2 \<subseteq> set (alcanzables g) - vis1" by auto
        then have "card (set (alcanzables g) - vis2) \<le> card (set (alcanzables g) - vis1)"
          by (intro card_mono) auto
        with c1 have c2: "card (set (alcanzables g) - vis2) \<le> n" by simp
        have "set resto \<subseteq> set (alcanzables g) \<longrightarrow> actual \<in> vis2 \<longrightarrow>
            card (set (alcanzables g) - vis2) \<le> n \<longrightarrow>
            (\<exists>res. dfs_vecinos n g actual sumidero resto vis2 p2 = Inr res)"
        proof (rule "4.IH"(3))
          show "(if vecino \<notin> visitado \<and> 0 < residual_adelante g actual vecino
            then dfs_aumento n g vecino sumidero visitado (padre(vecino \<mapsto> Some (actual, 1)))
            else Inr (False, visitado, padre)) = Inr (r1, vis1, p1)"
            using res1 i1 by simp
          show "(r1, vis1, p1) = (r1, vis1, p1)" by simp
          show "r1 = False" using nr1 by simp
          show "(vis1, p1) = (vis1, p1)" by simp
          show "(if vecino \<notin> vis1 \<and> 0 < residual_atras g actual vecino
            then dfs_aumento n g vecino sumidero vis1 (p1(vecino \<mapsto> Some (actual, - 1)))
            else Inr (False, vis1, p1)) = Inr (r2, vis2, p2)"
            using res2 i2 by simp
          show "(r2, vis2, p2) = (r2, vis2, p2)" by simp
          show "r2 = False" using nr2 by simp
          show "(vis2, p2) = (vis2, p2)" by simp
        qed
        with rU a2 c2 obtain res where
          "dfs_vecinos n g actual sumidero resto vis2 p2 = Inr res" by blast
        moreover from res1 nr1 res2 nr2
        have "dfs_vecinos n g actual sumidero (vecino # resto) visitado padre =
            dfs_vecinos n g actual sumidero resto vis2 p2"
          by (simp add: dfs_vecinos_Cons)
        ultimately show ?thesis by metis
      qed
    qed
  qed
qed

lemma dfs_aumento_limite: "\<exists>r. buscar_dfs g fuente sumidero = Inr r"
proof (cases "fuente = sumidero")
  case True
  then show ?thesis by (simp add: buscar_dfs_def limite_def)
next
  case False
  have "card (set (alcanzables g) - {fuente}) \<le> card (set (alcanzables g))"
    by (intro card_mono) auto
  also have "\<dots> = length (alcanzables g)"
  proof -
    have "distinct (alcanzables g)" by (simp add: alcanzables_def)
    then show ?thesis by (rule distinct_card)
  qed
  finally have "card (set (alcanzables g) - {fuente}) \<le> length (alcanzables g)" .
  with dfs_termina(2) [of "fila_de (ady g) fuente" g fuente "{fuente}" "length (alcanzables g)"
      sumidero Map.empty] fila_de_alcanzables [of g fuente]
  obtain res where "dfs_vecinos (length (alcanzables g)) g fuente sumidero (fila_de (ady g) fuente)
      {fuente} Map.empty = Inr res" by auto
  with False have "dfs_aumento (limite g) g fuente sumidero {} Map.empty = Inr res"
    by (simp add: limite_def)
  then have "buscar_dfs g fuente sumidero =
      Inr (if fst res then Some (snd (snd res)) else None)"
    by (simp add: buscar_dfs_def split: prod.splits)
  then show ?thesis by blast
qed

subsection \<open>Runs on the example networks\<close>

lemma bien_formada_red_b: "bien_formada red_b"
  using bien_formada_establecer_capacidad [OF bien_formada_vacia red_b_construida] .

lemma bien_formada_red_c: "bien_formada red_c"
  by (auto simp: bien_formada_def red_c_def entrada_def fila_de_def split: if_splits)

lemma ford_fulkerson_red_c:
  "ford_fulkerson_dfs red_c 0 2 =
     Some (Inr (Fin 7, [((0, 1), 4), ((0, 2), 3), ((1, 2), 4)]), red_c)"
  by code_simp

lemma edmonds_karp_red_c:
  "edmonds_karp_bfs red_c 0 2 =
     Some (Inr (Fin 7, [((0, 1), 4), ((0, 2), 3), ((1, 2), 4)]), red_c)"
  by code_simp

lemma ford_fulkerson_red_b:
  "ford_fulkerson_dfs red_b 0 1 =
     Some (Inr (Fin 5, [((0, 1), 5)]),
           red_b\<lparr>flujo := [(0, [(1, 5)]), (1, [(0, 0)])]\<rparr>)"
  by code_simp

lemma edmonds_karp_red_b:
  "edmonds_karp_bfs red_b 0 1 =
     Some (Inr (Fin 5, [((0, 1), 5)]),
           red_b\<lparr>flujo := [(0, [(1, 5)]), (1, [(0, 0)])]\<rparr>)"
  by code_simp

subsection \<open>The returned dict of edge flows\<close>

lemma flujo_aristas_fila:
  "distinct (map fst r) \<Longrightarrow>
   map_of (foldl (\<lambda>m (v, cap). AList.update (u, v) (F v cap) m) m r) (a, b) =
     (if a = u then (case map_of r b of Some cap \<Rightarrow> Some (F b cap) | None \<Rightarrow> map_of m (a, b))
      else map_of m (a, b))"
proof (induction r arbitrary: m)
  case Nil
  then show ?case by simp
next
  case (Cons x r)
  obtain v cap where x: "x = (v, cap)" by (cases x)
  with Cons.prems have "map_of r v = None" by (simp add: map_of_eq_None_iff)
  with Cons x show ?case by (auto simp: update_conv' split: option.splits)
qed

lemma flujo_aristas_tabla:
  "distinct (map fst d) \<Longrightarrow> \<forall>(u, r) \<in> set d. distinct (map fst r) \<Longrightarrow>
   map_of (foldl (\<lambda>m (u, r). foldl (\<lambda>m (v, cap). AList.update (u, v) (F u v cap) m) m r) m d) (a, b) =
     (case entrada d a b of Some cap \<Rightarrow> Some (F a b cap) | None \<Rightarrow> map_of m (a, b))"
proof (induction d arbitrary: m)
  case Nil
  then show ?case by (simp add: entrada_def fila_de_def)
next
  case (Cons x d)
  obtain u r where x: "x = (u, r)" by (cases x)
  with Cons.prems have n: "map_of d u = None" and dr: "distinct (map fst r)"
    and d: "distinct (map fst d)" "\<forall>(u, r) \<in> set d. distinct (map fst r)"
    by (simp_all add: map_of_eq_None_iff)
  have e: "entrada ((u, r) # d) a b = (if a = u then map_of r b else entrada d a b)"
    by (simp add: entrada_def fila_de_def)
  from n have eu: "entrada d u b = None" by (simp add: entrada_def fila_de_def)
  show ?case
    using Cons.IH [OF d] eu
    by (simp add: x e flujo_aristas_fila [OF dr] split: option.splits)
qed

lemma distinct_foldl_update:
  assumes "\<And>m x. distinct (map fst m) \<Longrightarrow> distinct (map fst (f m x))" "distinct (map fst m)"
  shows "distinct (map fst (foldl f m xs))"
  using assms(2) by (induction xs arbitrary: m) (auto intro: assms(1))

lemma flujo_aristas_distinct: "distinct (map fst (flujo_aristas g))"
  unfolding flujo_aristas_def
  by (intro distinct_foldl_update) (auto simp: case_prod_unfold intro!: distinct_foldl_update distinct_update)

lemma map_of_flujo_aristas:
  assumes "distinct (map fst (capacidad g))" "\<forall>(u, r) \<in> set (capacidad g). distinct (map fst r)"
  shows "map_of (flujo_aristas g) (u, v) =
     map_option (\<lambda>cap. max 0 (min cap (obtener (flujo g) u v))) (entrada (capacidad g) u v)"
  unfolding flujo_aristas_def
  using flujo_aristas_tabla [OF assms, of "\<lambda>u v cap. max 0 (min cap (obtener (flujo g) u v))" "[]" u v]
  by (simp split: option.splits)

lemma entrada_positiva:
  "bien_formada g \<Longrightarrow> (\<exists>c. entrada (capacidad g) u v = Some c) \<longleftrightarrow> 0 < obtener (capacidad g) u v"
  by (auto simp: bien_formada_def obtener_def split: option.splits)

subsection \<open>What the loop keeps\<close>

lemma bucle_marco_aux:
  "bucle buscar g s t acc = Some y \<Longrightarrow>
   capacidad (snd y) = capacidad g \<and> ady (snd y) = ady g \<and> nodos' (snd y) = nodos' g"
proof (induction rule: bucle_induct)
  case (paso bucle' buscar g s t acc y)
  from paso(2) obtain r g1 where i: "iteracion buscar g s t = Some (r, g1)"
    by (auto split: option.splits)
  note m = iteracion_marco [OF i]
  show ?case
  proof (cases r)
    case Termina
    with paso(2) i m show ?thesis by auto
  next
    case (Falla e)
    with paso(2) i m show ?thesis by auto
  next
    case (Sigue b)
    with paso(2) i have "bucle' buscar g1 s t (mas acc b) = Some y" by simp
    from paso(1) [OF this] m show ?thesis by simp
  qed
qed

lemma resolver_resultado:
  assumes "resolver buscar g s t = Some (Inr (fm, m), g')"
  shows "bucle buscar (reiniciar_flujos g) s t (Fin 0) = Some (Inr fm, g') \<and>
         m = flujo_aristas g' \<and> capacidad g' = capacidad g \<and> s \<in> set (nodos' g) \<and> t \<in> set (nodos' g)"
proof -
  from assms have n: "s \<in> set (nodos' g) \<and> t \<in> set (nodos' g)"
    by (auto simp: resolver_def split: if_splits)
  with assms have b: "bucle buscar (reiniciar_flujos g) s t (Fin 0) = Some (Inr fm, g')"
    and m: "m = flujo_aristas g'"
    by (auto simp: resolver_def split: option.splits sum.splits prod.splits)
  from bucle_marco_aux [OF b] have "capacidad g' = capacidad g" by simp
  with n b m show ?thesis by simp
qed

lemma bien_formada_capacidad:
  "bien_formada g \<Longrightarrow> capacidad g' = capacidad g \<Longrightarrow> ady g' = ady g \<Longrightarrow> bien_formada g'"
  by (simp add: bien_formada_def)

text \<open>
  Claim C6. When a solver returns, on a well-formed network, the dict of edge flows has
  one key for every ordered pair of positive stored capacity and no other key, and every
  value lies between 0 and that capacity.
\<close>

theorem flujo_aristas_completo:
  assumes "bien_formada g"
    and "ford_fulkerson_dfs g fuente sumidero = Some (Inr (fm, m), g') \<or>
         edmonds_karp_bfs g fuente sumidero = Some (Inr (fm, m), g')"
  shows "distinct (map fst m) \<and>
         (\<forall>u v. (\<exists>f. ((u, v), f) \<in> set m) \<longleftrightarrow> 0 < obtener (capacidad g) u v) \<and>
         (\<forall>((u, v), f) \<in> set m. 0 \<le> f \<and> f \<le> obtener (capacidad g) u v)"
proof -
  from assms(2) obtain buscar where "resolver buscar g fuente sumidero = Some (Inr (fm, m), g')"
    unfolding ford_fulkerson_dfs_def edmonds_karp_bfs_def by blast
  from resolver_resultado [OF this] have m: "m = flujo_aristas g'" and c: "capacidad g' = capacidad g"
    by simp_all
  have d: "distinct (map fst m)" by (simp add: m flujo_aristas_distinct)
  have mo: "map_of m (u, v) =
      map_option (\<lambda>cap. max 0 (min cap (obtener (flujo g') u v))) (entrada (capacidad g) u v)" for u v
    using map_of_flujo_aristas [of g' u v] assms(1) by (simp add: m c bien_formada_def)
  have k: "(\<exists>f. ((u, v), f) \<in> set m) \<longleftrightarrow> 0 < obtener (capacidad g) u v" for u v
  proof -
    have "(\<exists>f. ((u, v), f) \<in> set m) \<longleftrightarrow> (\<exists>f. map_of m (u, v) = Some f)"
      using d by simp
    also have "\<dots> \<longleftrightarrow> (\<exists>c. entrada (capacidad g) u v = Some c)" by (auto simp: mo)
    also have "\<dots> \<longleftrightarrow> 0 < obtener (capacidad g) u v" using assms(1) by (rule entrada_positiva)
    finally show ?thesis .
  qed
  have r: "0 \<le> f \<and> f \<le> obtener (capacidad g) u v" if "((u, v), f) \<in> set m" for u v f
  proof -
    from that d have "map_of m (u, v) = Some f" by simp
    then obtain cap where cap: "entrada (capacidad g) u v = Some cap"
      "f = max 0 (min cap (obtener (flujo g') u v))" by (auto simp: mo)
    with assms(1) have "0 < cap" by (auto simp: bien_formada_def)
    with cap show ?thesis by (auto simp: obtener_def)
  qed
  from d k r show ?thesis by blast
qed


theorem flujo_aristas_completo_witness:
  "bien_formada red_c \<and>
   (ford_fulkerson_dfs red_c 0 2 =
      Some (Inr (Fin 7, [((0, 1), 4), ((0, 2), 3), ((1, 2), 4)]), red_c) \<or>
    edmonds_karp_bfs red_c 0 2 =
      Some (Inr (Fin 7, [((0, 1), 4), ((0, 2), 3), ((1, 2), 4)]), red_c)) \<and>
   distinct (map fst [((0 :: int, 1 :: int), 4 :: int), ((0, 2), 3), ((1, 2), 4)]) \<and>
   obtener (capacidad red_c) 0 1 = 5 \<and> obtener (capacidad red_c) 2 1 = 0"
proof -
  have h: "ford_fulkerson_dfs red_c 0 2 =
      Some (Inr (Fin 7, [((0, 1), 4), ((0, 2), 3), ((1, 2), 4)]), red_c) \<or>
    edmonds_karp_bfs red_c 0 2 =
      Some (Inr (Fin 7, [((0, 1), 4), ((0, 2), 3), ((1, 2), 4)]), red_c)"
    using ford_fulkerson_red_c by simp
  from flujo_aristas_completo [OF bien_formada_red_c h]
  have "distinct (map fst [((0 :: int, 1 :: int), 4 :: int), ((0, 2), 3), ((1, 2), 4)])"
    by blast
  moreover have "obtener (capacidad red_c) 0 1 = 5" "obtener (capacidad red_c) 2 1 = 0"
    by (simp_all add: red_c_def obtener_def entrada_def fila_de_def)
  ultimately show ?thesis using bien_formada_red_c h by blast
qed

subsection \<open>The flows stay within the capacities throughout a run\<close>

lemma en_cabeza_acotado:
  assumes "bien_formada g" "busqueda_correcta buscar" "en_cabeza buscar s t g g1"
  shows "flujo_acotado g1 \<and> capacidad g1 = capacidad g \<and> ady g1 = ady g"
  using assms(3)
proof (induction rule: en_cabeza.induct)
  case inicio
  from assms(1) show ?case by (simp add: flujo_acotado_reiniciar)
next
  case (vuelta g1 b g2)
  from iteracion_flujo_acotado [OF assms(2) vuelta(2)] vuelta(3) iteracion_marco [OF vuelta(2)]
  show ?case by simp
qed

lemma recorrido_prefijo:
  assumes "es_camino padre s t ps" "recorrido padre s b (t, g) x"
  shows "\<exists>k \<le> length ps. snd x = escribir_tramos g b (take k ps) \<and>
                          es_camino padre s (fst x) (drop k ps)"
  using assms(2)
proof (induction rule: recorrido.induct)
  case aqui
  from assms(1) show ?case by (intro exI [of _ 0]) simp
next
  case (pasada v g1 u dir)
  then obtain k where k: "k \<le> length ps" "g1 = escribir_tramos g b (take k ps)"
    "es_camino padre s v (drop k ps)" by auto
  from k(3) pasada(2) obtain p resto where d: "drop k ps = p # resto"
    by (cases "drop k ps") auto
  obtain u' d' w' where p: "p = (u', d', w')" by (cases p)
  from k(3) d p pasada(3) have e: "u' = u" "d' = dir" "w' = v" "es_camino padre s u resto"
    by auto
  from d have lt: "k < length ps" by (cases "k < length ps") auto
  from d have "ps ! k = p" "drop (Suc k) ps = resto"
    using lt by (auto simp: Cons_nth_drop_Suc [symmetric])
  with lt have "take (Suc k) ps = take k ps @ [(u, dir, v)]" "drop (Suc k) ps = resto"
    using p e by (simp_all add: take_Suc_conv_app_nth)
  with k(2) e(4) lt show ?case
    by (intro exI [of _ "Suc k"]) (simp add: escribir_tramos_snoc)
qed

lemma en_curso_acotado:
  assumes "bien_formada g" "busqueda_correcta buscar" "en_curso buscar s t g g2"
  shows "flujo_acotado g2 \<and> capacidad g2 = capacidad g"
  using assms(3)
proof (cases rule: en_curso.cases)
  case cabeza
  with en_cabeza_acotado [OF assms(1,2)] show ?thesis by blast
next
  case (escritura g1 padre b v)
  from en_cabeza_acotado [OF assms(1,2) escritura(1)]
  have a: "flujo_acotado g1" and c: "capacidad g1 = capacidad g" by simp_all
  from assms(2) escritura(2) obtain ps where
    ps: "es_camino padre s t ps" "\<forall>p \<in> set ps. 0 < residual g1 p"
    unfolding busqueda_correcta_def by blast
  have "calcular_botella g1 padre s t Inf = Some (Inr (botella_de g1 Inf ps))"
    using ps(1) by (rule calcular_botella_camino)
  with escritura(3) have bd: "botella_de g1 Inf ps = Fin b" by simp
  then have "ps \<noteq> []" by auto
  from botella_de_Inf [OF this ps(2)] bd
  have b: "0 < b" "\<forall>p \<in> set ps. b \<le> residual g1 p" by auto
  from recorrido_prefijo [OF ps(1) escritura(4)]
  obtain k where "g2 = escribir_tramos g1 b (take k ps)" by auto
  with flujo_acotado_prefijo [OF a b(1) es_camino_ranuras [OF ps(1)] b(2), of k] c
  show ?thesis by simp
qed

lemma bucle_en_cabeza_aux:
  "bucle buscar g1 s t acc = Some y \<Longrightarrow>
   \<forall>g fm g'. en_cabeza buscar s t g g1 \<longrightarrow> y = (Inr fm, g') \<longrightarrow>
     en_cabeza buscar s t g g' \<and> buscar g' s t = Inr None"
proof (induction rule: bucle_induct)
  case (paso bucle' buscar g1 s t acc y)
  show ?case
  proof (intro allI impI)
    fix g fm g'
    assume c: "en_cabeza buscar s t g g1" and y: "y = (Inr fm, g')"
    from paso(2) obtain r g2 where i: "iteracion buscar g1 s t = Some (r, g2)"
      by (auto split: option.splits)
    show "en_cabeza buscar s t g g' \<and> buscar g' s t = Inr None"
    proof (cases r)
      case Termina
      with i have "buscar g1 s t = Inr None" "g2 = g1"
        by (auto simp: iteracion_def split: sum.splits option.splits valor.splits prod.splits)
      moreover from paso(2) i Termina y have "g' = g2" by simp
      ultimately show ?thesis using c by simp
    next
      case (Falla e)
      with paso(2) i y show ?thesis by simp
    next
      case (Sigue b)
      with paso(2) i have "bucle' buscar g2 s t (mas acc b) = Some y" by simp
      moreover from c i Sigue have "en_cabeza buscar s t g g2" by (auto intro: en_cabeza.vuelta)
      ultimately show ?thesis using paso(1) y by blast
    qed
  qed
qed

lemma resolver_en_cabeza:
  assumes "resolver buscar g s t = Some (Inr (fm, m), g')"
  shows "en_cabeza buscar s t g g' \<and> buscar g' s t = Inr None"
  using bucle_en_cabeza_aux [of buscar "reiniciar_flujos g" s t "Fin 0" "(Inr fm, g')"]
    resolver_resultado [OF assms] en_cabeza.inicio [of buscar s t g]
  by blast

lemma flujo_aristas_sin_recorte:
  assumes "bien_formada g" "flujo_acotado g"
  shows "map_of (flujo_aristas g) (u, v) =
     (if 0 < obtener (capacidad g) u v then Some (obtener (flujo g) u v) else None)"
proof (cases "entrada (capacidad g) u v")
  case None
  with assms(1) show ?thesis
    by (simp add: map_of_flujo_aristas bien_formada_def obtener_def)
next
  case (Some cap)
  with assms(1) have "0 < cap" by (auto simp: bien_formada_def)
  moreover from Some have "obtener (capacidad g) u v = cap" by (simp add: obtener_def)
  with assms(2) have "0 \<le> obtener (flujo g) u v" "obtener (flujo g) u v \<le> cap"
    unfolding flujo_acotado_def by metis+
  ultimately show ?thesis using Some assms(1)
    by (simp add: map_of_flujo_aristas bien_formada_def obtener_def)
qed

text \<open>
  Claim C9. On a well-formed network, with either search, every network a solver run goes
  through after the flow reset, at the head of the loop or between two writes of an
  augmentation, has every stored flow within \<open>[0, capacity]\<close> (a missing entry
  counting as 0). So when the solver returns, the clamping changed nothing: the dict of
  edge flows holds the stored flow of every pair of positive capacity.
\<close>

theorem flujo_dentro_de_capacidad:
  assumes "bien_formada g" and "buscar = buscar_dfs \<or> buscar = buscar_bfs"
  shows "(\<forall>g1 u v. en_curso buscar fuente sumidero g g1 \<longrightarrow>
            0 \<le> obtener (flujo g1) u v \<and> obtener (flujo g1) u v \<le> obtener (capacidad g1) u v) \<and>
         (\<forall>fm m g' u v. resolver buscar g fuente sumidero = Some (Inr (fm, m), g') \<longrightarrow>
            map_of m (u, v) =
              (if 0 < obtener (capacidad g') u v then Some (obtener (flujo g') u v) else None))"
proof -
  from assms(2) have bc: "busqueda_correcta buscar"
    using buscar_dfs_correcta buscar_bfs_correcta by blast
  have 1: "0 \<le> obtener (flujo g1) u v \<and> obtener (flujo g1) u v \<le> obtener (capacidad g1) u v"
    if "en_curso buscar fuente sumidero g g1" for g1 u v
    using en_curso_acotado [OF assms(1) bc that] unfolding flujo_acotado_def by metis
  have 2: "map_of m (u, v) =
      (if 0 < obtener (capacidad g') u v then Some (obtener (flujo g') u v) else None)"
    if r: "resolver buscar g fuente sumidero = Some (Inr (fm, m), g')" for fm m g' u v
  proof -
    from resolver_en_cabeza [OF r] have c: "en_cabeza buscar fuente sumidero g g'" by simp
    from en_cabeza_acotado [OF assms(1) bc c]
    have a: "flujo_acotado g'" "capacidad g' = capacidad g" "ady g' = ady g" by simp_all
    from assms(1) a(2,3) have "bien_formada g'" by (rule bien_formada_capacidad)
    from flujo_aristas_sin_recorte [OF this a(1)] resolver_resultado [OF r]
    show ?thesis by simp
  qed
  from 1 2 show ?thesis by blast
qed


theorem flujo_dentro_de_capacidad_witness:
  "bien_formada red_b \<and> (buscar_dfs = buscar_dfs \<or> buscar_dfs = buscar_bfs) \<and>
   en_curso buscar_dfs 0 1 red_b (red_b\<lparr>flujo := [(0, [(1, 5)]), (1, [(0, 0)])]\<rparr>) \<and>
   0 \<le> obtener (flujo (red_b\<lparr>flujo := [(0, [(1, 5)]), (1, [(0, 0)])]\<rparr>)) 0 1 \<and>
   obtener (flujo (red_b\<lparr>flujo := [(0, [(1, 5)]), (1, [(0, 0)])]\<rparr>)) 0 1
     \<le> obtener (capacidad (red_b\<lparr>flujo := [(0, [(1, 5)]), (1, [(0, 0)])]\<rparr>)) 0 1 \<and>
   resolver buscar_dfs red_b 0 1 =
     Some (Inr (Fin 5, [((0, 1), 5)]), red_b\<lparr>flujo := [(0, [(1, 5)]), (1, [(0, 0)])]\<rparr>) \<and>
   map_of [((0 :: int, 1 :: int), 5 :: int)] (0, 1) =
     Some (obtener (flujo (red_b\<lparr>flujo := [(0, [(1, 5)]), (1, [(0, 0)])]\<rparr>)) 0 1)"
proof -
  let ?g = "red_b\<lparr>flujo := [(0, [(1, 5)]), (1, [(0, 0)])]\<rparr>"
  have i: "iteracion buscar_dfs (reiniciar_flujos red_b) 0 1 = Some (Sigue (Fin 5), ?g)"
    by code_simp
  have e: "en_curso buscar_dfs 0 1 red_b ?g"
    by (rule en_curso.cabeza, rule en_cabeza.vuelta [OF en_cabeza.inicio i])
  have r: "resolver buscar_dfs red_b 0 1 = Some (Inr (Fin 5, [((0, 1), 5)]), ?g)"
    using ford_fulkerson_red_b by (simp add: ford_fulkerson_dfs_def)
  have c: "0 < obtener (capacidad ?g) 0 1" by (simp add: red_b_def obtener_def entrada_def fila_de_def)
  have h: "buscar_dfs = buscar_dfs \<or> buscar_dfs = buscar_bfs" by simp
  note t = flujo_dentro_de_capacidad [OF bien_formada_red_b h, of 0 1]
  from t e have "0 \<le> obtener (flujo ?g) 0 1 \<and> obtener (flujo ?g) 0 1 \<le> obtener (capacidad ?g) 0 1"
    by blast
  moreover from t r c have "map_of [((0 :: int, 1 :: int), 5 :: int)] (0, 1) =
      Some (obtener (flujo ?g) 0 1)" by metis
  ultimately show ?thesis using bien_formada_red_b h e r by blast
qed

subsection \<open>Flow conservation\<close>

text \<open>The flow out of \<open>w\<close> minus the flow into \<open>w\<close>, over the edges \<open>E\<close>.\<close>

definition neto :: "(nodo \<times> nodo) set \<Rightarrow> red \<Rightarrow> nodo \<Rightarrow> int" where
  "neto E g w =
     (\<Sum>e \<in> E. (if fst e = w then obtener (flujo g) (fst e) (snd e) else 0) -
              (if snd e = w then obtener (flujo g) (fst e) (snd e) else 0))"

lemma neto_escribir:
  assumes "finite E" "ranura (u, d, v) \<in> E"
  shows "neto E (escribir g u d v b) w =
         neto E g w + b * ((if u = w then 1 else 0) - (if v = w then 1 else 0))"
proof -
  define h where "h g e = (if fst e = w then obtener (flujo g) (fst e) (snd e) else 0) -
      (if snd e = w then obtener (flujo g) (fst e) (snd e) else 0)" for g :: red and e :: "nodo \<times> nodo"
  define e0 where "e0 = ranura (u, d, v)"
  have otros: "h (escribir g u d v b) e = h g e" if "e \<noteq> e0" for e
  proof -
    from that have "(fst e, snd e) \<noteq> ranura (u, d, v)" by (simp add: e0_def)
    then have "obtener (flujo (escribir g u d v b)) (fst e) (snd e) = obtener (flujo g) (fst e) (snd e)"
      by (subst obtener_flujo_escribir) (simp del: ranura.simps)
    then show ?thesis unfolding h_def by (simp only:)
  qed
  have este: "h (escribir g u d v b) e0 =
      h g e0 + b * ((if u = w then 1 else 0) - (if v = w then 1 else 0))"
    unfolding h_def e0_def by (auto simp: obtener_flujo_escribir algebra_simps)
  have "neto E (escribir g u d v b) w = h (escribir g u d v b) e0 + sum (h (escribir g u d v b)) (E - {e0})"
    unfolding neto_def h_def [symmetric] using assms by (simp add: e0_def sum.remove)
  also have "sum (h (escribir g u d v b)) (E - {e0}) = sum (h g) (E - {e0})"
    by (rule sum.cong) (auto simp: otros)
  also have "h (escribir g u d v b) e0 + sum (h g) (E - {e0}) =
      (h g e0 + sum (h g) (E - {e0})) + b * ((if u = w then 1 else 0) - (if v = w then 1 else 0))"
    by (simp add: este)
  also have "h g e0 + sum (h g) (E - {e0}) = neto E g w"
    unfolding neto_def h_def [symmetric] using assms by (simp add: e0_def sum.remove)
  finally show ?thesis .
qed

lemma neto_tramos:
  "finite E \<Longrightarrow> es_camino padre s v ps \<Longrightarrow> \<forall>p \<in> set ps. ranura p \<in> E \<Longrightarrow>
   neto E (escribir_tramos g b ps) w =
   neto E g w + b * ((if s = w then 1 else 0) - (if v = w then 1 else 0))"
proof (induction ps arbitrary: v g)
  case Nil
  then show ?case by simp
next
  case (Cons p ps)
  obtain u d x where p: "p = (u, d, x)" by (cases p)
  with Cons.prems have h: "x = v" "es_camino padre s u ps" "ranura (u, d, v) \<in> E"
    "\<forall>p \<in> set ps. ranura p \<in> E" by auto
  have "neto E (escribir_tramos (escribir g u d v b) b ps) w =
      neto E (escribir g u d v b) w + b * ((if s = w then 1 else 0) - (if u = w then 1 else 0))"
    using Cons.prems(1) h(2,4) by (rule Cons.IH)
  also have "neto E (escribir g u d v b) w =
      neto E g w + b * ((if u = w then 1 else 0) - (if v = w then 1 else 0))"
    using Cons.prems(1) h(3) by (rule neto_escribir)
  finally show ?case by (simp add: p h(1) algebra_simps)
qed

text \<open>The edges of positive capacity.\<close>

definition positivas :: "red \<Rightarrow> (nodo \<times> nodo) set" where
  "positivas g = {(u, v). 0 < obtener (capacidad g) u v}"

lemma claves_flujo_aristas:
  assumes "bien_formada g"
  shows "set (map fst (flujo_aristas g)) = positivas g"
proof -
  have "(e \<in> set (map fst (flujo_aristas g))) = (e \<in> positivas g)" for e
  proof -
    obtain u v where e: "e = (u, v)" by (cases e)
    have "e \<in> set (map fst (flujo_aristas g)) \<longleftrightarrow> map_of (flujo_aristas g) (u, v) \<noteq> None"
      by (simp add: e map_of_eq_None_iff)
    also have "\<dots> \<longleftrightarrow> (\<exists>c. entrada (capacidad g) u v = Some c)"
      using assms by (auto simp: map_of_flujo_aristas bien_formada_def)
    also have "\<dots> \<longleftrightarrow> 0 < obtener (capacidad g) u v" using assms by (rule entrada_positiva)
    finally show ?thesis by (simp add: e positivas_def)
  qed
  then show ?thesis by blast
qed

lemma finite_positivas: "bien_formada g \<Longrightarrow> finite (positivas g)"
  using claves_flujo_aristas [of g] by (metis List.finite_set)

lemma ranura_positiva:
  assumes "flujo_acotado g" "0 < residual g p"
  shows "ranura p \<in> positivas g"
proof -
  obtain u d v where p: "p = (u, d, v)" by (cases p)
  from assms(1) have a: "0 \<le> obtener (flujo g) u v" "obtener (flujo g) v u \<le> obtener (capacidad g) v u"
    unfolding flujo_acotado_def by metis+
  with assms(2) show ?thesis
    by (auto simp: p positivas_def residual_adelante_def residual_atras_def split: if_splits)
qed

lemma neto_reiniciar: "neto E (reiniciar_flujos g) w = 0"
  unfolding neto_def by (rule sum.neutral) simp

lemma iteracion_neto:
  assumes "busqueda_correcta buscar" "iteracion buscar g s t = Some (Sigue b, g2)"
    "flujo_acotado g" "finite (positivas g)" "w \<noteq> s" "w \<noteq> t"
  shows "neto (positivas g) g2 w = neto (positivas g) g w"
proof -
  from iteracion_Sigue [OF assms(1,2)] obtain padre ps where
    ps: "es_camino padre s t ps" "\<forall>p \<in> set ps. 0 < residual g p" and
    r: "ps = [] \<and> g2 = g \<or> (\<exists>k. g2 = escribir_tramos g k ps)"
    by blast
  from ps(2) assms(3) have e: "\<forall>p \<in> set ps. ranura p \<in> positivas g"
    by (auto intro: ranura_positiva)
  from r show ?thesis
  proof
    assume "ps = [] \<and> g2 = g"
    then show ?thesis by simp
  next
    assume "\<exists>k. g2 = escribir_tramos g k ps"
    then obtain k where "g2 = escribir_tramos g k ps" by blast
    with neto_tramos [OF assms(4) ps(1) e, of g k w] assms(5,6) show ?thesis by simp
  qed
qed

lemma en_cabeza_neto:
  assumes "bien_formada g" "busqueda_correcta buscar" "en_cabeza buscar s t g g1" "w \<noteq> s" "w \<noteq> t"
  shows "neto (positivas g) g1 w = 0"
  using assms(3)
proof (induction rule: en_cabeza.induct)
  case inicio
  show ?case by (rule neto_reiniciar)
next
  case (vuelta g1 b g2)
  from en_cabeza_acotado [OF assms(1,2) vuelta(1)]
  have a: "flujo_acotado g1" "capacidad g1 = capacidad g" by simp_all
  then have p: "positivas g1 = positivas g" by (simp add: positivas_def)
  from iteracion_neto [OF assms(2) vuelta(2) a(1) _ assms(4,5)] p finite_positivas [OF assms(1)]
    vuelta(3) show ?case by simp
qed


lemma sum_list_filtro:
  "sum_list (map snd (filter P m)) = sum_list (map (\<lambda>x. if P x then snd x else (0 :: int)) m)"
  by (induction m) auto

lemma set_flujo_aristas:
  assumes "bien_formada g" "flujo_acotado g"
  shows "set (flujo_aristas g) =
         (\<lambda>e. (e, obtener (flujo g) (fst e) (snd e))) ` positivas g"
proof -
  have "(x \<in> set (flujo_aristas g)) =
        (x \<in> (\<lambda>e. (e, obtener (flujo g) (fst e) (snd e))) ` positivas g)" for x
  proof -
    obtain u v f where x: "x = ((u, v), f)" by (cases x) auto
    have "x \<in> set (flujo_aristas g) \<longleftrightarrow> map_of (flujo_aristas g) (u, v) = Some f"
      using flujo_aristas_distinct [of g] by (simp add: x)
    also have "\<dots> \<longleftrightarrow> 0 < obtener (capacidad g) u v \<and> f = obtener (flujo g) u v"
      by (auto simp: flujo_aristas_sin_recorte [OF assms])
    also have "\<dots> \<longleftrightarrow> x \<in> (\<lambda>e. (e, obtener (flujo g) (fst e) (snd e))) ` positivas g"
      by (auto simp: x positivas_def image_iff)
    finally show ?thesis .
  qed
  then show ?thesis by blast
qed

lemma suma_flujo_aristas:
  assumes "bien_formada g" "flujo_acotado g"
  shows "sum_list (map snd (filter (\<lambda>x. P (fst x)) (flujo_aristas g))) =
         (\<Sum>e \<in> positivas g. if P e then obtener (flujo g) (fst e) (snd e) else 0)"
proof -
  have d: "distinct (flujo_aristas g)"
    using flujo_aristas_distinct [of g] by (simp add: distinct_map)
  have i: "inj_on (\<lambda>e. (e, obtener (flujo g) (fst e) (snd e))) (positivas g)"
    by (rule inj_onI) simp
  have "sum_list (map snd (filter (\<lambda>x. P (fst x)) (flujo_aristas g))) =
        sum_list (map (\<lambda>x. if P (fst x) then snd x else 0) (flujo_aristas g))"
    by (rule sum_list_filtro)
  also have "\<dots> = sum (\<lambda>x. if P (fst x) then snd x else 0) (set (flujo_aristas g))"
    using d by (rule sum_list_distinct_conv_sum_set)
  also have "\<dots> = sum ((\<lambda>x. if P (fst x) then snd x else 0) \<circ>
      (\<lambda>e. (e, obtener (flujo g) (fst e) (snd e)))) (positivas g)"
    unfolding set_flujo_aristas [OF assms] using i by (rule sum.reindex)
  also have "\<dots> = (\<Sum>e \<in> positivas g. if P e then obtener (flujo g) (fst e) (snd e) else 0)"
    by (rule sum.cong) simp_all
  finally show ?thesis .
qed

lemma saliente_menos_entrante:
  assumes "bien_formada g" "flujo_acotado g"
  shows "saliente (flujo_aristas g) w - entrante (flujo_aristas g) w = neto (positivas g) g w"
proof -
  have s: "saliente m w = sum_list (map snd (filter (\<lambda>x. fst (fst x) = w) m))" for m
    unfolding saliente_def by (rule arg_cong [where f = "\<lambda>P. sum_list (map snd (filter P m))"]) auto
  have e: "entrante m w = sum_list (map snd (filter (\<lambda>x. snd (fst x) = w) m))" for m
    unfolding entrante_def by (rule arg_cong [where f = "\<lambda>P. sum_list (map snd (filter P m))"]) auto
  show ?thesis
    unfolding s e neto_def
      suma_flujo_aristas [OF assms, of "\<lambda>e. fst e = w"]
      suma_flujo_aristas [OF assms, of "\<lambda>e. snd e = w"]
    by (simp add: sum_subtractf)
qed

text \<open>
  Claim C5. When a solver returns, on a well-formed network, then for every node \<open>w\<close>
  other than the source and the sink the values of the returned dict over the edges that
  leave \<open>w\<close> and over the edges that enter \<open>w\<close> have the same sum.
\<close>

theorem conservacion_del_flujo:
  assumes "bien_formada g"
    and "ford_fulkerson_dfs g fuente sumidero = Some (Inr (fm, m), g') \<or>
         edmonds_karp_bfs g fuente sumidero = Some (Inr (fm, m), g')"
    and "w \<noteq> fuente" and "w \<noteq> sumidero"
  shows "saliente m w = entrante m w"
proof -
  from assms(2) obtain buscar where b: "buscar = buscar_dfs \<or> buscar = buscar_bfs"
    and r: "resolver buscar g fuente sumidero = Some (Inr (fm, m), g')"
    unfolding ford_fulkerson_dfs_def edmonds_karp_bfs_def by blast
  from b have bc: "busqueda_correcta buscar"
    using buscar_dfs_correcta buscar_bfs_correcta by blast
  from resolver_en_cabeza [OF r] have c: "en_cabeza buscar fuente sumidero g g'" by simp
  from en_cabeza_acotado [OF assms(1) bc c]
  have a: "flujo_acotado g'" "capacidad g' = capacidad g" "ady g' = ady g" by simp_all
  from assms(1) a(2,3) have bf: "bien_formada g'" by (rule bien_formada_capacidad)
  from a(2) have p: "positivas g' = positivas g" by (simp add: positivas_def)
  from en_cabeza_neto [OF assms(1) bc c assms(3,4)] p
  have "neto (positivas g') g' w = 0" by simp
  with saliente_menos_entrante [OF bf a(1), of w] resolver_resultado [OF r]
  show ?thesis by simp
qed

theorem conservacion_del_flujo_witness:
  "bien_formada red_c \<and>
   (ford_fulkerson_dfs red_c 0 2 =
      Some (Inr (Fin 7, [((0, 1), 4), ((0, 2), 3), ((1, 2), 4)]), red_c) \<or>
    edmonds_karp_bfs red_c 0 2 =
      Some (Inr (Fin 7, [((0, 1), 4), ((0, 2), 3), ((1, 2), 4)]), red_c)) \<and>
   (1 :: int) \<noteq> 0 \<and> (1 :: int) \<noteq> 2 \<and>
   saliente [((0, 1), 4), ((0, 2), 3), ((1, 2), 4)] 1 = 4 \<and>
   entrante [((0, 1), 4), ((0, 2), 3), ((1, 2), 4)] 1 = 4"
proof -
  have h: "ford_fulkerson_dfs red_c 0 2 =
      Some (Inr (Fin 7, [((0, 1), 4), ((0, 2), 3), ((1, 2), 4)]), red_c) \<or>
    edmonds_karp_bfs red_c 0 2 =
      Some (Inr (Fin 7, [((0, 1), 4), ((0, 2), 3), ((1, 2), 4)]), red_c)"
    using edmonds_karp_red_c by simp
  have n: "(1 :: int) \<noteq> 0" "(1 :: int) \<noteq> 2" by simp_all
  have s: "saliente [((0, 1), 4), ((0, 2), 3), ((1, 2), 4)] 1 = 4" by (simp add: saliente_def)
  with conservacion_del_flujo [OF bien_formada_red_c h n]
  have "entrante [((0, 1), 4), ((0, 2), 3), ((1, 2), 4)] 1 = 4" by simp
  with bien_formada_red_c h n s show ?thesis by blast
qed

subsection \<open>Termination when the source is not the sink\<close>

definition busqueda_total :: "(red \<Rightarrow> nodo \<Rightarrow> nodo \<Rightarrow> error + padres option) \<Rightarrow> bool" where
  "busqueda_total buscar \<longleftrightarrow> (\<forall>g s t. \<exists>r. buscar g s t = Inr r)"

lemma buscar_dfs_total: "busqueda_total buscar_dfs"
  unfolding busqueda_total_def using dfs_aumento_limite by blast

lemma buscar_bfs_total: "busqueda_total buscar_bfs"
  unfolding busqueda_total_def buscar_bfs_def by blast

lemma iteracion_total:
  assumes "busqueda_correcta buscar" "busqueda_total buscar"
  shows "iteracion buscar g s t = Some (Termina, g) \<or>
         (\<exists>b g2. iteracion buscar g s t = Some (Sigue b, g2))"
proof -
  from assms(2) obtain r where r: "buscar g s t = Inr r"
    unfolding busqueda_total_def by blast
  show ?thesis
  proof (cases r)
    case None
    with r show ?thesis by (simp add: iteracion_def)
  next
    case (Some padre)
    with r assms(1) obtain ps where ps: "es_camino padre s t ps" "\<forall>p \<in> set ps. 0 < residual g p"
      unfolding busqueda_correcta_def by blast
    have cb: "calcular_botella g padre s t Inf = Some (Inr (botella_de g Inf ps))"
      using ps(1) by (rule calcular_botella_camino)
    show ?thesis
    proof (cases "botella_de g Inf ps")
      case Inf
      with r Some cb have "iteracion buscar g s t = Some (Sigue Inf, g)"
        by (simp add: iteracion_def)
      then show ?thesis by blast
    next
      case (Fin k)
      have "aplicar_botella g padre s t k = Some (Inr (), escribir_tramos g k ps)"
        using ps(1) by (rule aplicar_botella_camino)
      with r Some cb Fin have "iteracion buscar g s t = Some (Sigue (Fin k), escribir_tramos g k ps)"
        by (simp add: iteracion_def)
      then show ?thesis by blast
    qed
  qed
qed

lemma iteracion_aumenta:
  assumes "busqueda_correcta buscar" "iteracion buscar g s t = Some (Sigue b, g2)"
    "flujo_acotado g" "finite (positivas g)" "s \<noteq> t"
  shows "\<exists>k. b = Fin k \<and> 0 < k \<and> neto (positivas g) g2 s = neto (positivas g) g s + k"
proof -
  from iteracion_Sigue [OF assms(1,2)] obtain padre ps where
    ps: "es_camino padre s t ps" "\<forall>p \<in> set ps. 0 < residual g p" and
    r: "ps = [] \<and> b = Inf \<and> g2 = g \<or>
        ps \<noteq> [] \<and> (\<exists>k. b = Fin k \<and> 0 < k \<and> g2 = escribir_tramos g k ps)"
    by blast
  from ps(1) assms(5) have "ps \<noteq> []" by auto
  with r obtain k where k: "b = Fin k" "0 < k" "g2 = escribir_tramos g k ps" by blast
  from ps(2) assms(3) have e: "\<forall>p \<in> set ps. ranura p \<in> positivas g"
    by (auto intro: ranura_positiva)
  from neto_tramos [OF assms(4) ps(1) e, of g k s] assms(5) k show ?thesis by simp
qed

text \<open>The sum of all capacities bounds the net flow out of the source.\<close>

lemma neto_acotado:
  assumes "flujo_acotado g" "finite E"
  shows "neto E g s \<le> (\<Sum>e \<in> E. obtener (capacidad g) (fst e) (snd e))"
  unfolding neto_def
proof (rule sum_mono)
  fix e
  from assms(1) have "0 \<le> obtener (flujo g) (fst e) (snd e)"
    "obtener (flujo g) (fst e) (snd e) \<le> obtener (capacidad g) (fst e) (snd e)"
    unfolding flujo_acotado_def by metis+
  then show "(if fst e = s then obtener (flujo g) (fst e) (snd e) else 0) -
      (if snd e = s then obtener (flujo g) (fst e) (snd e) else 0)
      \<le> obtener (capacidad g) (fst e) (snd e)" by auto
qed

lemma bucle_termina_aux:
  assumes bc: "busqueda_correcta buscar" and bt: "busqueda_total buscar" and st: "s \<noteq> t"
  shows "flujo_acotado g \<Longrightarrow> finite (positivas g) \<Longrightarrow>
    n = nat ((\<Sum>e \<in> positivas g. obtener (capacidad g) (fst e) (snd e)) - neto (positivas g) g s) \<Longrightarrow>
    \<exists>fm g'. bucle buscar g s t (Fin a) = Some (Inr (Fin fm), g') \<and> a \<le> fm"
proof (induction n arbitrary: g a rule: less_induct)
  case (less n)
  let ?C = "\<lambda>g. \<Sum>e \<in> positivas g. obtener (capacidad g) (fst e) (snd e)"
  from iteracion_total [OF bc bt, of g s t] show ?case
  proof
    assume "iteracion buscar g s t = Some (Termina, g)"
    then have "bucle buscar g s t (Fin a) = Some (Inr (Fin a), g)"
      by (subst bucle.simps) simp
    then show ?thesis by auto
  next
    assume "\<exists>b g2. iteracion buscar g s t = Some (Sigue b, g2)"
    then obtain b g2 where i: "iteracion buscar g s t = Some (Sigue b, g2)" by blast
    from iteracion_aumenta [OF bc i less.prems(1,2) st]
    obtain k where k: "b = Fin k" "0 < k" "neto (positivas g) g2 s = neto (positivas g) g s + k"
      by blast
    from iteracion_flujo_acotado [OF bc i less.prems(1)] have a2: "flujo_acotado g2" .
    from iteracion_marco [OF i] have c2: "capacidad g2 = capacidad g" by simp
    then have p2: "positivas g2 = positivas g" by (simp add: positivas_def)
    define C where "C = ?C g"
    have C2: "?C g2 = C" by (simp add: p2 c2 C_def)
    from neto_acotado [OF a2, of "positivas g" s] less.prems(2)
    have le: "neto (positivas g) g2 s \<le> C" by (simp add: c2 C_def)
    have n: "n = nat (C - neto (positivas g) g s)" using less.prems(3) by (simp add: C_def)
    have "nat (?C g2 - neto (positivas g2) g2 s) < n"
      unfolding C2 n unfolding p2 using k le by arith
    from less.IH [OF this a2 _ refl, of "a + k"] less.prems(2) p2
    obtain fm g' where f: "bucle buscar g2 s t (Fin (a + k)) = Some (Inr (Fin fm), g')" "a + k \<le> fm"
      by auto
    from i k f(1) have "bucle buscar g s t (Fin a) = Some (Inr (Fin fm), g')"
      by (subst bucle.simps) simp
    moreover from k(2) f(2) have "a \<le> fm" by simp
    ultimately show ?thesis by blast
  qed
qed

lemma resolver_termina:
  assumes "bien_formada g" "busqueda_correcta buscar" "busqueda_total buscar"
    "s \<in> set (nodos' g)" "t \<in> set (nodos' g)" "s \<noteq> t"
  shows "\<exists>fm g'. resolver buscar g s t = Some (Inr (Fin fm, flujo_aristas g'), g') \<and> 0 \<le> fm"
proof -
  have "flujo_acotado (reiniciar_flujos g)" using assms(1) by (rule flujo_acotado_reiniciar)
  moreover have "finite (positivas (reiniciar_flujos g))"
    using finite_positivas [OF assms(1)] by (simp add: positivas_def)
  ultimately obtain fm g' where
    "bucle buscar (reiniciar_flujos g) s t (Fin 0) = Some (Inr (Fin fm), g')" "0 \<le> fm"
    using bucle_termina_aux [OF assms(2,3,6), of "reiniciar_flujos g" _ 0] by blast
  with assms(4,5) show ?thesis by (simp add: resolver_def)
qed

text \<open>With two different endpoints both solvers return: every iteration that finds a
  path adds a positive finite bottleneck, and the total is bounded by the sum of the
  capacities.\<close>

lemma solver_termina:
  assumes "bien_formada g" "s \<in> set (nodos' g)" "t \<in> set (nodos' g)" "s \<noteq> t"
  shows "\<exists>fm g'. ford_fulkerson_dfs g s t = Some (Inr (Fin fm, flujo_aristas g'), g') \<and> 0 \<le> fm"
    and "\<exists>fm g'. edmonds_karp_bfs g s t = Some (Inr (Fin fm, flujo_aristas g'), g') \<and> 0 \<le> fm"
  unfolding ford_fulkerson_dfs_def edmonds_karp_bfs_def
  using resolver_termina [OF assms(1) buscar_dfs_correcta buscar_dfs_total assms(2,3,4)]
    resolver_termina [OF assms(1) buscar_bfs_correcta buscar_bfs_total assms(2,3,4)]
  by blast+

end
